theory Spec2Isabelle
  imports
    Complex_Main
    "HOL-Library.Char_ord"
    "HOL-Library.List_Lexorder"
    "HOL-Library.Product_Lexorder"
    "HOL-Library.Sublist"
    "HOL-Library.Multiset"
    "HOL-Library.Log_Nat"
begin

section \<open>Strings\<close>

text \<open>
  A Python \<open>str\<close> is modelled as a HOL \<open>string\<close>; a character stands for the code
  point of the same number, so the model covers names whose code points are below 256.
  Strings are compared as Python compares them: lexicographically by code point, a proper
  prefix being smaller (the orders of \<open>Char_ord\<close> and \<open>List_Lexorder\<close>); tuples are
  compared component by component from the left (\<open>Product_Lexorder\<close>).
\<close>

definition lower_char :: "char \<Rightarrow> char" where
  \<comment> \<open>\<open>str.lower\<close> on one code point below 256: A-Z and the upper-case letters
      U+00C0..U+00DE (without the multiplication sign U+00D7) move up by 32, which sets
      the bit of value 32; every other code point stays.\<close>
  "lower_char c =
     (let n = (of_char c :: nat) in
      if (65 \<le> n \<and> n \<le> 90) \<or> (192 \<le> n \<and> n \<le> 222 \<and> n \<noteq> 215)
      then (case c of Char b0 b1 b2 b3 b4 b5 b6 b7 \<Rightarrow> Char b0 b1 b2 b3 b4 True b6 b7)
      else c)"

definition lower :: "string \<Rightarrow> string" where
  "lower s = map lower_char s"

definition strip_chars :: "string \<Rightarrow> string \<Rightarrow> string" where
  \<comment> \<open>\<open>s.strip(chars)\<close>: drop the characters of \<open>chars\<close> from both ends.\<close>
  "strip_chars chars s =
     rev (dropWhile (\<lambda>c. c \<in> set chars) (rev (dropWhile (\<lambda>c. c \<in> set chars) s)))"

definition path_name :: "string \<Rightarrow> string" where
  \<comment> \<open>\<open>Path.name\<close>: the final component of a path written with \<open>/\<close>. A path is
      modelled by \<open>str(path)\<close>, which the library has normalised; the path \<open>.\<close> has no
      component.\<close>
  "path_name p = (if p = ''.'' then [] else rev (takeWhile (\<lambda>c. c \<noteq> CHR ''/'') (rev p)))"

definition path_stem :: "string \<Rightarrow> string" where
  \<comment> \<open>\<open>Path.stem\<close>: the final component without its last suffix; a dot in first or in
      last position of the component starts no suffix.\<close>
  "path_stem p =
     (let name = path_name p;
          after = takeWhile (\<lambda>c. c \<noteq> CHR ''.'') (rev name)
      in if length after < length name \<and> after \<noteq> [] \<and> Suc (length after) < length name
         then take (length name - Suc (length after)) name
         else name)"

section \<open>The page-number pattern\<close>

text \<open>
  \<open>PAGE_RE = re.compile(r'page\s*no\.?\s*(\d+)', re.IGNORECASE)\<close>.
  The character classes are those of a \<open>str\<close> pattern, read on code points below 256.
\<close>

definition is_space :: "char \<Rightarrow> bool" where
  \<comment> \<open>\<open>\s\<close>: tab, newline, vertical tab, form feed, carriage return, the separators
      U+001C..U+001F, space, U+0085 and U+00A0.\<close>
  "is_space c =
     (let n = (of_char c :: nat) in
      (9 \<le> n \<and> n \<le> 13) \<or> (28 \<le> n \<and> n \<le> 32) \<or> n = 133 \<or> n = 160)"

definition is_digit :: "char \<Rightarrow> bool" where
  \<comment> \<open>\<open>\d\<close>: below 256 the decimal digits are 0-9.\<close>
  "is_digit c = (let n = (of_char c :: nat) in 48 \<le> n \<and> n \<le> 57)"

fun match_lit :: "string \<Rightarrow> string \<Rightarrow> string option" where
  \<comment> \<open>A literal of lower-case letters under \<open>IGNORECASE\<close>: each character of the text
      matches when its lower case is the letter. The result is the text left.\<close>
  "match_lit [] s = Some s"
| "match_lit (p # ps) [] = None"
| "match_lit (p # ps) (c # cs) = (if lower_char c = p then match_lit ps cs else None)"

definition opt_dot :: "string \<Rightarrow> string" where
  \<comment> \<open>\<open>\.?\<close>: a dot is taken when it is there.\<close>
  "opt_dot s = (case s of [] \<Rightarrow> [] | c # cs \<Rightarrow> if c = CHR ''.'' then cs else s)"

definition PAGE_RE_match :: "string \<Rightarrow> (string \<times> string) option" where
  \<comment> \<open>A match of the pattern at the start of the text: the digits of group 1 and the
      text after the match. Each quantifier is greedy; what follows a quantifier never
      starts with a character the quantifier accepts, so giving characters back finds
      no further match.\<close>
  "PAGE_RE_match s =
     (case match_lit ''page'' s of
        None \<Rightarrow> None
      | Some s1 \<Rightarrow>
          (case match_lit ''no'' (dropWhile is_space s1) of
             None \<Rightarrow> None
           | Some s2 \<Rightarrow>
               (let s3 = dropWhile is_space (opt_dot s2);
                    ds = takeWhile is_digit s3
                in if ds = [] then None else Some (ds, dropWhile is_digit s3))))"

fun PAGE_RE_search :: "string \<Rightarrow> (string \<times> string) option" where
  \<comment> \<open>\<open>PAGE_RE.search\<close>: the match at the leftmost position that has one.\<close>
  "PAGE_RE_search [] = PAGE_RE_match []"
| "PAGE_RE_search (c # cs) =
     (case PAGE_RE_match (c # cs) of
        Some m \<Rightarrow> Some m
      | None \<Rightarrow> PAGE_RE_search cs)"

lemma match_lit_length: "match_lit p s = Some r \<Longrightarrow> length r + length p = length s"
  by (induction p s rule: match_lit.induct) (auto split: if_splits)

lemma opt_dot_length: "length (opt_dot s) \<le> length s"
  by (cases s) (auto simp: opt_dot_def)

lemma PAGE_RE_match_shorter:
  assumes "PAGE_RE_match s = Some (ds, r)"
  shows "length r < length s"
proof -
  from assms obtain s1 s2 where
    s1: "match_lit ''page'' s = Some s1" and
    s2: "match_lit ''no'' (dropWhile is_space s1) = Some s2" and
    r: "r = dropWhile is_digit (dropWhile is_space (opt_dot s2))"
    by (auto simp: PAGE_RE_match_def Let_def split: option.splits if_splits)
  have "length r \<le> length (opt_dot s2)"
    unfolding r by (meson length_dropWhile_le order_trans)
  also have "\<dots> \<le> length s2" by (rule opt_dot_length)
  also have "\<dots> \<le> length (dropWhile is_space s1)"
    using match_lit_length [OF s2] by simp
  also have "\<dots> \<le> length s1" by (rule length_dropWhile_le)
  also have "\<dots> < length s" using match_lit_length [OF s1] by simp
  finally show ?thesis .
qed

function PAGE_RE_sub :: "string \<Rightarrow> string" where
  \<comment> \<open>\<open>PAGE_RE.sub('', s)\<close>: every match, found from left to right and not overlapping
      an earlier one, is removed.\<close>
  "PAGE_RE_sub [] = []"
| "PAGE_RE_sub (c # cs) =
     (case PAGE_RE_match (c # cs) of
        Some (ds, r) \<Rightarrow> PAGE_RE_sub r
      | None \<Rightarrow> c # PAGE_RE_sub cs)"
  by pat_completeness auto
termination
  by (relation "measure length") (auto dest: PAGE_RE_match_shorter)

section \<open>Exceptions and \<open>int\<close>\<close>

datatype error =
    ZeroDivisionError
  | OverflowError
  | ValueError string
  | OSError string

definition digit_val :: "char \<Rightarrow> int" where
  "digit_val c = int (of_char c) - 48"

definition digits_value :: "string \<Rightarrow> int" where
  \<comment> \<open>The number that a string of decimal digits writes.\<close>
  "digits_value ds = foldl (\<lambda>a c. 10 * a + digit_val c) 0 ds"

function str_nat :: "nat \<Rightarrow> string" where
  \<comment> \<open>\<open>str(n)\<close> on a natural number.\<close>
  "str_nat n =
     (if n < 10 then [''0123456789'' ! n]
      else str_nat (n div 10) @ [''0123456789'' ! (n mod 10)])"
  by pat_completeness auto
termination
  by (relation "measure id") auto

declare str_nat.simps [simp del]

definition py_int :: "string \<Rightarrow> error + int" where
  \<comment> \<open>\<open>int(ds)\<close> on a string of decimal digits. The interpreter (Python 3.11, with its
      default limit) refuses a string of more than 4300 digits.\<close>
  "py_int ds =
     (if 4300 < length ds
      then Inl (ValueError
             (''Exceeds the limit (4300 digits) for integer string conversion: value has ''
              @ str_nat (length ds)
              @ '' digits; use sys.set_int_max_str_digits() to increase the limit''))
      else Inr (digits_value ds))"

section \<open>The sort key\<close>

definition DEFAULT_PRIORITY :: "string list" where
  "DEFAULT_PRIORITY =
     [''dainik bhaskar'', ''city bhaskar'', ''rajasthan patrika'', ''first india'',
      ''sach bedhadak'']"

fun first_kw :: "string list \<Rightarrow> string \<Rightarrow> nat \<Rightarrow> nat option" where
  \<comment> \<open>The loop over \<open>enumerate(priority_l)\<close> from index \<open>i\<close>: the index of the first
      keyword that is a substring of \<open>name\<close>, where the loop breaks.\<close>
  "first_kw [] name i = None"
| "first_kw (kw # kws) name i =
     (if sublist kw name then Some i else first_kw kws name (Suc i))"

definition pr_rank :: "string list \<Rightarrow> string \<Rightarrow> nat" where
  "pr_rank priority_l name =
     (case first_kw priority_l name 0 of
        Some i \<Rightarrow> i
      | None \<Rightarrow> length priority_l + 1)"

definition page_num :: "string \<Rightarrow> error + int" where
  \<comment> \<open>\<open>m = PAGE_RE.search(name); page_num = int(m.group(1)) if m else 0\<close>\<close>
  "page_num name =
     (case PAGE_RE_search name of
        Some (ds, r) \<Rightarrow> py_int ds
      | None \<Rightarrow> Inr 0)"

definition base_name :: "string \<Rightarrow> string" where
  \<comment> \<open>\<open>base = PAGE_RE.sub('', name).strip('- _')\<close>\<close>
  "base_name name = strip_chars ''- _'' (PAGE_RE_sub name)"

definition display_name :: "(string \<rightharpoonup> string) option \<Rightarrow> string \<Rightarrow> string" where
  \<comment> \<open>The original file name when the map is given and has the path
      (\<open>filename_map and str(path) in filename_map\<close>; an empty map has no path), the
      stem of the path otherwise. A path is modelled by its string.\<close>
  "display_name filename_map path =
     (case filename_map of
        None \<Rightarrow> path_stem path
      | Some fm \<Rightarrow> (case fm path of Some original \<Rightarrow> original | None \<Rightarrow> path_stem path))"

type_synonym key = "nat \<times> string \<times> int \<times> nat"

definition build_sort_key_with_map ::
  "string list \<Rightarrow> (string \<rightharpoonup> string) option \<Rightarrow> nat \<times> string \<Rightarrow> error + key" where
  \<comment> \<open>The key of one pair, or the exception that \<open>int\<close> raises.\<close>
  "build_sort_key_with_map priority filename_map pair =
     (let priority_l = map lower priority;
          idx = fst pair;
          path = snd pair;
          name = lower (display_name filename_map path)
      in case page_num name of
           Inl e \<Rightarrow> Inl e
         | Inr n \<Rightarrow> Inr (pr_rank priority_l name, base_name name, n, idx))"

fun map_keys :: "('a \<Rightarrow> error + 'k) \<Rightarrow> 'a list \<Rightarrow> error + ('k \<times> 'a) list" where
  \<comment> \<open>\<open>list.sort(key=f)\<close> first computes the key of every element, from the first to
      the last; an exception of \<open>f\<close> ends the sort.\<close>
  "map_keys f [] = Inr []"
| "map_keys f (x # xs) =
     (case f x of
        Inl e \<Rightarrow> Inl e
      | Inr k \<Rightarrow>
          (case map_keys f xs of
             Inl e \<Rightarrow> Inl e
           | Inr kxs \<Rightarrow> Inr ((k, x) # kxs)))"

definition list_sort_key :: "('a \<Rightarrow> error + 'k::linorder) \<Rightarrow> 'a list \<Rightarrow> error + 'a list" where
  \<comment> \<open>\<open>xs.sort(key=f)\<close>: the elements in ascending order of their keys; \<open>list.sort\<close> is
      stable, as the insertion sort \<open>sort_key\<close> is.\<close>
  "list_sort_key f xs =
     (case map_keys f xs of
        Inl e \<Rightarrow> Inl e
      | Inr kxs \<Rightarrow> Inr (map snd (sort_key fst kxs)))"

definition indexed_sorted ::
  "string list \<Rightarrow> (string \<rightharpoonup> string) option \<Rightarrow> string list \<Rightarrow>
   error + (nat \<times> string) list" where
  \<comment> \<open>\<open>indexed = list(enumerate(image_paths)); indexed.sort(key=...)\<close>\<close>
  "indexed_sorted priority filename_map image_paths =
     list_sort_key (build_sort_key_with_map priority filename_map) (enumerate 0 image_paths)"

definition ordered ::
  "string list \<Rightarrow> (string \<rightharpoonup> string) option \<Rightarrow> string list \<Rightarrow> error + string list" where
  \<comment> \<open>\<open>ordered = [p for _, p in indexed]\<close>\<close>
  "ordered priority filename_map image_paths =
     (case indexed_sorted priority filename_map image_paths of
        Inl e \<Rightarrow> Inl e
      | Inr indexed \<Rightarrow> Inr (map snd indexed))"

definition key3 :: "key \<Rightarrow> nat \<times> string \<times> int" where
  \<comment> \<open>The first three components of a key: bucket, base name, page number.\<close>
  "key3 k = (fst k, fst (snd k), fst (snd (snd k)))"

section \<open>Python floats\<close>

text \<open>
  A finite \<open>float\<close> is modelled by the rational number it stands for. \<open>fl\<close> rounds a
  rational to binary64, to nearest with ties to even: 53 significant bits from the
  exponent \<open>ilog2\<close> of the number, and the fixed spacing \<open>2 powi (- 1074)\<close> below
  \<open>2 powi (- 1022)\<close>. A result beyond \<open>max_double\<close> is an overflow.
\<close>

definition ilog2 :: "rat \<Rightarrow> int" where
  \<comment> \<open>For \<open>0 < a\<close>, the exponent \<open>e\<close> with \<open>2 powi e \<le> a < 2 powi (e + 1)\<close>.\<close>
  "ilog2 a =
     (let (p, q) = quotient_of a; d = bitlen p - bitlen q
      in if 2 powi d \<le> a then d else d - 1)"

definition round_half_even :: "rat \<Rightarrow> int" where
  "round_half_even y =
     (let f = \<lfloor>y\<rfloor>; d = y - of_int f
      in if d < 1 / 2 then f
         else if 1 / 2 < d then f + 1
         else if even f then f else f + 1)"

definition fl :: "rat \<Rightarrow> rat" where
  "fl x =
     (if x = 0 then 0
      else let a = \<bar>x\<bar>;
               e = max (ilog2 a) (- 1022);
               u = 2 powi (e - 52)
           in sgn x * (of_int (round_half_even (a / u)) * u))"

definition max_double :: rat where
  "max_double = (2 ^ 53 - 1) * 2 ^ 971"

definition py_trunc :: "rat \<Rightarrow> int" where
  \<comment> \<open>\<open>int(x)\<close> on a finite float: towards zero.\<close>
  "py_trunc x = (if 0 \<le> x then \<lfloor>x\<rfloor> else \<lceil>x\<rceil>)"

section \<open>Images and the renderer\<close>

record image =
  width :: int
  height :: int
  source :: string
  label :: "string option"

text \<open>
  An image is its size, the path it was decoded from and the text of the label band
  drawn on it, if any; the pixels are left out. What the imaging library decides is a
  parameter: \<open>open_rgb\<close> is \<open>Image.open(p).convert('RGB')\<close>, the size of the decoded
  image or the exception raised; \<open>textbbox\<close> is the bounding box of a text in the font
  that \<open>load_font\<close> returns for a font size, or the exception raised; \<open>save_all\<close> is
  \<open>first.save(str(output_path), save_all=True, append_images=rest)\<close>, which writes the
  file or raises.
\<close>

record pil =
  open_rgb :: "string \<Rightarrow> error + int \<times> int"
  textbbox :: "int \<Rightarrow> string \<Rightarrow> error + int \<times> int \<times> int \<times> int"
  save_all :: "image \<Rightarrow> image list \<Rightarrow> error + unit"

definition true_div :: "int \<Rightarrow> int \<Rightarrow> error + rat" where
  \<comment> \<open>\<open>a / b\<close> on two \<open>int\<close>s: the correctly rounded quotient.\<close>
  "true_div a b =
     (if b = 0 then Inl ZeroDivisionError
      else let q = fl (of_int a / of_int b)
           in if max_double < \<bar>q\<bar> then Inl OverflowError else Inr q)"

definition int_of_product :: "int \<Rightarrow> rat \<Rightarrow> error + int" where
  \<comment> \<open>\<open>int(w*scale)\<close>: the \<open>int\<close> becomes a float, the product is rounded, and \<open>int\<close>
      truncates it; an \<open>int\<close> too large for a float and an infinite product raise.\<close>
  "int_of_product w scale =
     (let wf = fl (of_int w)
      in if max_double < \<bar>wf\<bar> then Inl OverflowError
         else let p = fl (wf * scale)
              in if max_double < \<bar>p\<bar> then Inl OverflowError else Inr (py_trunc p))"

definition resize :: "image \<Rightarrow> int \<times> int \<Rightarrow> error + image" where
  \<comment> \<open>\<open>im.resize(size, Image.LANCZOS)\<close>: an image of the size asked for; the library
      refuses a side below 1.\<close>
  "resize im sz =
     (if fst sz < 1 \<or> snd sz < 1 then Inl (ValueError ''height and width must be > 0'')
      else Inr (im\<lparr>width := fst sz, height := snd sz\<rparr>))"

definition bound_scale :: "rat \<Rightarrow> int option \<Rightarrow> int \<Rightarrow> error + rat" where
  \<comment> \<open>\<open>if max_d is not None and d > max_d: scale = min(scale, max_d / d)\<close>\<close>
  "bound_scale scale max_d d =
     (case max_d of
        None \<Rightarrow> Inr scale
      | Some m \<Rightarrow>
          if m < d
          then (case true_div m d of Inl e \<Rightarrow> Inl e | Inr q \<Rightarrow> Inr (min scale q))
          else Inr scale)"

definition scale_image :: "image \<Rightarrow> int option \<Rightarrow> int option \<Rightarrow> error + image" where
  "scale_image im max_w max_h =
     (if max_w = None \<and> max_h = None then Inr im
      else let w = width im; h = height im
           in case bound_scale 1 max_w w of
                Inl e \<Rightarrow> Inl e
              | Inr scale1 \<Rightarrow>
                  (case bound_scale scale1 max_h h of
                     Inl e \<Rightarrow> Inl e
                   | Inr scale \<Rightarrow>
                       if scale < 1
                       then (case int_of_product w scale of
                               Inl e \<Rightarrow> Inl e
                             | Inr nw \<Rightarrow>
                                 (case int_of_product h scale of
                                    Inl e \<Rightarrow> Inl e
                                  | Inr nh \<Rightarrow> resize im (nw, nh)))
                       else Inr im))"

definition add_label ::
  "(string \<Rightarrow> error + int \<times> int \<times> int \<times> int) \<Rightarrow> image \<Rightarrow> string \<Rightarrow> error + image" where
  \<comment> \<open>The canvas is as wide as the image and higher by the band; the image is pasted
      below the band and the text drawn in it. \<open>bbox\<close> is \<open>textbbox\<close> in the font.
      The library refuses a canvas of negative height.\<close>
  "add_label bbox im label_text =
     (case bbox label_text of
        Inl e \<Rightarrow> Inl e
      | Inr (x0, y0, x1, y1) \<Rightarrow>
          (let text_w = x1 - x0; text_h = y1 - y0;
               padding_x = 12; padding_y = 10;
               box_w = text_w + padding_x * 2;
               box_h = text_h + padding_y * 2
           in if height im + box_h < 0 then Inl (ValueError ''Width and height must be >= 0'')
              else Inr (im\<lparr>height := height im + box_h, label := Some label_text\<rparr>)))"

definition page_label :: "string option \<Rightarrow> (string \<rightharpoonup> string) option \<Rightarrow> string \<Rightarrow> string" where
  \<comment> \<open>The label of page \<open>p\<close> in \<open>generate_pdf\<close>, in both branches
      \<open>all_label if all_label is not None else ...\<close>.\<close>
  "page_label all_label filename_map p =
     (case (case filename_map of None \<Rightarrow> None | Some fm \<Rightarrow> fm p) of
        Some original \<Rightarrow> (case all_label of Some l \<Rightarrow> l | None \<Rightarrow> original)
      | None \<Rightarrow> (case all_label of Some l \<Rightarrow> l | None \<Rightarrow> path_stem p))"

definition process_page ::
  "pil \<Rightarrow> string option \<Rightarrow> int \<Rightarrow> int option \<Rightarrow> int option \<Rightarrow> bool \<Rightarrow>
   (string \<rightharpoonup> string) option \<Rightarrow> string \<Rightarrow> error + image" where
  \<comment> \<open>The body of the \<open>try\<close> for one page: what is appended to \<open>processed\<close>, or the
      exception that the \<open>except Exception\<close> catches.\<close>
  "process_page lib all_label font_size max_w max_h no_label filename_map p =
     (case open_rgb lib p of
        Inl e \<Rightarrow> Inl e
      | Inr (w, h) \<Rightarrow>
          (case scale_image \<lparr>width = w, height = h, source = p, label = None\<rparr> max_w max_h of
             Inl e \<Rightarrow> Inl e
           | Inr im \<Rightarrow>
               if \<not> no_label
               then add_label (textbbox lib font_size) im (page_label all_label filename_map p)
               else Inr im))"

fun process_loop ::
  "(string \<Rightarrow> error + image) \<Rightarrow> string list \<Rightarrow> image list \<times> (string \<times> error) list \<Rightarrow>
   image list \<times> (string \<times> error) list" where
  \<comment> \<open>\<open>for p in ordered\<close>, on the state of \<open>processed\<close> and of the warnings printed
      (the name of the skipped page and the exception).\<close>
  "process_loop f [] st = st"
| "process_loop f (p # ps) st =
     (case f p of
        Inr im \<Rightarrow> process_loop f ps (fst st @ [im], snd st)
      | Inl e \<Rightarrow> process_loop f ps (fst st, snd st @ [(path_name p, e)]))"

definition generate_pdf ::
  "pil \<Rightarrow> string list \<Rightarrow> string list \<Rightarrow> string option \<Rightarrow> int \<Rightarrow> int option \<Rightarrow> int option \<Rightarrow>
   bool \<Rightarrow> (string \<rightharpoonup> string) option \<Rightarrow> (string \<times> error) list \<times> (error + image list \<times> nat)" where
  \<comment> \<open>The warnings printed, and the exception raised or the pages saved to the output
      (\<open>first\<close> followed by \<open>rest\<close>) with the number returned. The sort stands before
      the loop and outside its \<open>try\<close>, and so does the saving after it.\<close>
  "generate_pdf lib image_paths priority all_label font_size max_w max_h no_label filename_map =
     (case ordered priority filename_map image_paths of
        Inl e \<Rightarrow> ([], Inl e)
      | Inr ordered_paths \<Rightarrow>
          (let st = process_loop
                      (process_page lib all_label font_size max_w max_h no_label filename_map)
                      ordered_paths ([], []);
               processed = fst st
           in (snd st,
               case processed of
                 [] \<Rightarrow> Inl (ValueError ''No images processed'')
               | first # rest \<Rightarrow>
                   (case save_all lib first rest of
                      Inl e \<Rightarrow> Inl e
                    | Inr u \<Rightarrow> Inr (first # rest, length processed)))))"

definition form_all_label :: "(string \<rightharpoonup> string) \<Rightarrow> string option" where
  \<comment> \<open>In \<open>generate\<close>: \<open>all_label = request.form.get('all_label', None)\<close>, then
      \<open>if all_label == '': all_label = None\<close>.\<close>
  "form_all_label form =
     (case form ''all_label'' of
        None \<Rightarrow> None
      | Some v \<Rightarrow> if v = [] then None else Some v)"

section \<open>Notions the statements use\<close>

text \<open>
  The language of the page-number pattern, written out: \<open>page_token t ds\<close> says that
  \<open>t\<close> is a match of \<open>PAGE_RE\<close> whose group 1 is \<open>ds\<close>; \<open>token_at s\<close> that some match
  starts \<open>s\<close>; \<open>leftmost pre s\<close> that no match starts inside \<open>pre\<close> in \<open>pre @ s\<close>;
  \<open>no_digit_next r\<close> that \<open>r\<close> does not go on with a digit.
\<close>

definition page_token :: "string \<Rightarrow> string \<Rightarrow> bool" where
  "page_token t ds \<longleftrightarrow>
     (\<exists>pg ws1 no dot ws2.
        t = pg @ ws1 @ no @ dot @ ws2 @ ds \<and>
        lower pg = ''page'' \<and> list_all is_space ws1 \<and> lower no = ''no'' \<and>
        (dot = [] \<or> dot = ''.'') \<and> list_all is_space ws2 \<and>
        ds \<noteq> [] \<and> list_all is_digit ds)"

definition token_at :: "string \<Rightarrow> bool" where
  "token_at s \<longleftrightarrow> (\<exists>t ds r. s = t @ r \<and> page_token t ds)"

definition no_digit_next :: "string \<Rightarrow> bool" where
  "no_digit_next r \<longleftrightarrow> (case r of [] \<Rightarrow> True | c # cs \<Rightarrow> \<not> is_digit c)"

definition leftmost :: "string \<Rightarrow> string \<Rightarrow> bool" where
  "leftmost pre s \<longleftrightarrow> (\<forall>i < length pre. \<not> token_at (drop i (pre @ s)))"

text \<open>
  The token and the removal as the specification words them, for comparison with the
  code: \<open>claimed_token\<close> has no \<open>no\<close> after \<open>page\<close>, and \<open>PAGE_RE_sub_first\<close> removes
  the first match only.
\<close>

definition claimed_token :: "string \<Rightarrow> string \<Rightarrow> bool" where
  "claimed_token t ds \<longleftrightarrow>
     (\<exists>pg ws1 dot ws2.
        t = pg @ ws1 @ dot @ ws2 @ ds \<and>
        lower pg = ''page'' \<and> list_all is_space ws1 \<and>
        (dot = [] \<or> dot = ''.'') \<and> list_all is_space ws2 \<and>
        ds \<noteq> [] \<and> list_all is_digit ds)"

fun PAGE_RE_sub_first :: "string \<Rightarrow> string" where
  "PAGE_RE_sub_first [] = []"
| "PAGE_RE_sub_first (c # cs) =
     (case PAGE_RE_match (c # cs) of
        Some (ds, r) \<Rightarrow> r
      | None \<Rightarrow> c # PAGE_RE_sub_first cs)"

text \<open>
  The ratios \<open>max_width / width\<close> and \<open>max_height / height\<close>, as floats, of the bounds
  that are set and exceeded.
\<close>

definition exceeded_ratio :: "int option \<Rightarrow> int \<Rightarrow> rat list" where
  "exceeded_ratio max_d d =
     (case max_d of
        None \<Rightarrow> []
      | Some m \<Rightarrow> if m < d then [fl (of_int m / of_int d)] else [])"

definition exceeded_ratios :: "image \<Rightarrow> int option \<Rightarrow> int option \<Rightarrow> rat list" where
  "exceeded_ratios im max_w max_h =
     exceeded_ratio max_w (width im) @ exceeded_ratio max_h (height im)"

text \<open>
  The key of a pair with the digit limit of \<open>int\<close> left aside, and the pages on which
  \<open>int\<close> returns: the key that \<open>build_sort_key_with_map\<close> computes is \<open>key_value\<close>
  exactly on the pages that are \<open>key_ok\<close>.
\<close>

definition key_ok :: "(string \<rightharpoonup> string) option \<Rightarrow> string \<Rightarrow> bool" where
  "key_ok filename_map path =
     (case PAGE_RE_search (lower (display_name filename_map path)) of
        Some (ds, r) \<Rightarrow> length ds \<le> 4300
      | None \<Rightarrow> True)"

definition key_value ::
  "string list \<Rightarrow> (string \<rightharpoonup> string) option \<Rightarrow> nat \<times> string \<Rightarrow> key" where
  "key_value priority filename_map pair =
     (let name = lower (display_name filename_map (snd pair))
      in (pr_rank (map lower priority) name, base_name name,
          (case PAGE_RE_search name of Some (ds, r) \<Rightarrow> digits_value ds | None \<Rightarrow> 0),
          fst pair))"

definition indexed_sorted_value ::
  "string list \<Rightarrow> (string \<rightharpoonup> string) option \<Rightarrow> string list \<Rightarrow> (nat \<times> string) list" where
  "indexed_sorted_value priority filename_map image_paths =
     sort_key (key_value priority filename_map) (enumerate 0 image_paths)"

definition ordered_value ::
  "string list \<Rightarrow> (string \<rightharpoonup> string) option \<Rightarrow> string list \<Rightarrow> string list" where
  "ordered_value priority filename_map image_paths =
     map snd (indexed_sorted_value priority filename_map image_paths)"

text \<open>
  The pages of a list that \<open>f\<close> processes, in order, and the warnings for the others.
\<close>

definition successes :: "(string \<Rightarrow> error + image) \<Rightarrow> string list \<Rightarrow> image list" where
  "successes f ps = List.map_filter (\<lambda>p. case f p of Inr im \<Rightarrow> Some im | Inl e \<Rightarrow> None) ps"

definition failures :: "(string \<Rightarrow> error + image) \<Rightarrow> string list \<Rightarrow> (string \<times> error) list" where
  "failures f ps =
     List.map_filter (\<lambda>p. case f p of Inl e \<Rightarrow> Some (path_name p, e) | Inr im \<Rightarrow> None) ps"


text \<open>
  An imaging library for the examples: a file named \<open>bad.jpg\<close> does not decode, every
  other file is 640 by 480, a text is as high as the font size, and saving succeeds;
  and the same library on a disk that is full.
\<close>

definition sample_pil :: pil where
  "sample_pil =
     \<lparr>open_rgb = (\<lambda>p. if path_name p = ''bad.jpg''
                      then Inl (OSError ''cannot identify image file'')
                      else Inr (640, 480)),
      textbbox = (\<lambda>sz t. Inr (0, 0, int (length t) * sz, sz)),
      save_all = (\<lambda>first rest. Inr ())\<rparr>"

definition full_disk_pil :: pil where
  "full_disk_pil =
     sample_pil\<lparr>save_all := (\<lambda>first rest. Inl (OSError ''No space left on device''))\<rparr>"

section \<open>The order of the keys\<close>

lemma key_le_key3: "(k1::key) \<le> k2 \<Longrightarrow> key3 k1 \<le> key3 k2"
  by (auto simp: key3_def less_eq_prod_def)


lemma key_le_intro:
  "key3 k1 < key3 k2 \<or> (key3 k1 = key3 k2 \<and> snd (snd (snd k1)) \<le> snd (snd (snd k2))) \<Longrightarrow> (k1::key) \<le> k2"
  by (cases k1; cases k2) (auto simp: key3_def less_eq_prod_def less_prod_def)

lemma idx_key_value [simp]:
  "snd (snd (snd (key_value priority filename_map pair))) = fst pair"
  by (simp add: key_value_def Let_def)

lemma key3_key_value:
  "key3 (key_value priority filename_map (i, p)) =
   key3 (key_value priority filename_map (j, p))"
  by (simp add: key_value_def Let_def key3_def)

lemma sorted_indexed_sorted_value:
  "sorted (map (key_value priority filename_map) (indexed_sorted_value priority filename_map image_paths))"
  by (simp add: indexed_sorted_value_def)



lemma sorted_enumerate_key:
  assumes "sorted (map (\<lambda>p. key3 (key_value priority filename_map (0, p))) ys)"
  shows "sorted (map (key_value priority filename_map) (enumerate n ys))"
proof -
  let ?k = "key_value priority filename_map"
  have "?k (enumerate n ys ! i) \<le> ?k (enumerate n ys ! j)"
    if "i \<le> j" "j < length ys" for i j
  proof -
    have "key3 (?k (0, ys ! i)) \<le> key3 (?k (0, ys ! j))"
      using assms that by (simp add: sorted_iff_nth_mono)
    then have "key3 (?k (n + i, ys ! i)) \<le> key3 (?k (n + j, ys ! j))"
      using key3_key_value by metis
    then show ?thesis
      using that by (intro key_le_intro) (auto simp: nth_enumerate_eq)
  qed
  then show ?thesis
    by (simp add: sorted_iff_nth_mono)
qed

lemma first_kw_None: "first_kw kws name i = None \<longleftrightarrow> (\<forall>kw \<in> set kws. \<not> sublist kw name)"
  by (induction kws arbitrary: i) auto

lemma first_kw_Some:
  "first_kw kws name i = Some r \<Longrightarrow>
     i \<le> r \<and> r < i + length kws \<and> sublist (kws ! (r - i)) name \<and>
     (\<forall>j < r - i. \<not> sublist (kws ! j) name)"
proof (induction kws arbitrary: i)
  case Nil
  then show ?case by simp
next
  case (Cons kw kws)
  show ?case
  proof (cases "sublist kw name")
    case True
    with Cons.prems show ?thesis by simp
  next
    case False
    with Cons.prems have r: "first_kw kws name (Suc i) = Some r" by simp
    from Cons.IH [OF r] have ih: "Suc i \<le> r" "r < Suc i + length kws"
      "sublist (kws ! (r - Suc i)) name" "\<forall>j < r - Suc i. \<not> sublist (kws ! j) name"
      by auto
    have "r - i = Suc (r - Suc i)" using ih(1) by simp
    then show ?thesis using ih False by (auto simp: nth_Cons split: nat.splits)
  qed
qed

lemma pr_rank_unmatched:
  "(\<forall>kw \<in> set kws. \<not> sublist kw name) \<Longrightarrow> pr_rank kws name = length kws + 1"
  using first_kw_None [of kws name 0] by (simp add: pr_rank_def)

lemma pr_rank_matched:
  "\<exists>kw \<in> set kws. sublist kw name \<Longrightarrow> pr_rank kws name < length kws"
proof -
  assume "\<exists>kw \<in> set kws. sublist kw name"
  then obtain r where r: "first_kw kws name 0 = Some r"
    using first_kw_None [of kws name 0] by auto
  from first_kw_Some [OF r] show ?thesis by (simp add: pr_rank_def r)
qed


text \<open>
  The same file uploaded twice after another one: the two copies agree on the first three
  components and stay in input order.
\<close>

lemma value_unmatched:
  fixes priority filename_map image_paths
  defines "out \<equiv> indexed_sorted_value priority filename_map image_paths"
  defines "k \<equiv> key_value priority filename_map"
  defines "has \<equiv> \<lambda>path kw. sublist (lower kw) (lower (display_name filename_map path))"
  shows "(\<forall>idx path. (\<forall>kw \<in> set priority. \<not> has path kw) \<longrightarrow>
            fst (k (idx, path)) = length priority + 1) \<and>
         (\<forall>i j. i < length out \<and> j < length out \<and>
                (\<exists>kw \<in> set priority. has (snd (out ! i)) kw) \<and>
                (\<forall>kw \<in> set priority. \<not> has (snd (out ! j)) kw)
                \<longrightarrow> i < j)"
proof -
  have un: "fst (k (idx, path)) = length priority + 1"
    if "\<forall>kw \<in> set priority. \<not> has path kw" for idx path
    using that pr_rank_unmatched [of "map lower priority" "lower (display_name filename_map path)"]
    by (simp add: k_def has_def key_value_def Let_def)
  have ma: "fst (k (idx, path)) < length priority"
    if "\<exists>kw \<in> set priority. has path kw" for idx path
    using that pr_rank_matched [of "map lower priority" "lower (display_name filename_map path)"]
    by (simp add: k_def has_def key_value_def Let_def)
  have s: "sorted (map k out)" unfolding k_def out_def by (rule sorted_indexed_sorted_value)
  have ord: "i < j"
    if "i < length out" "j < length out" "\<exists>kw \<in> set priority. has (snd (out ! i)) kw"
       "\<forall>kw \<in> set priority. \<not> has (snd (out ! j)) kw" for i j
  proof (rule ccontr)
    assume "\<not> i < j"
    then have "k (out ! j) \<le> k (out ! i)"
      using s that(1) by (simp add: sorted_iff_nth_mono)
    then have "fst (k (out ! j)) \<le> fst (k (out ! i))"
      by (auto simp: less_eq_prod_def)
    moreover have "fst (k (out ! i)) < length priority"
      using ma [OF that(3), of "fst (out ! i)"] by simp
    moreover have "fst (k (out ! j)) = length priority + 1"
      using un [OF that(4), of "fst (out ! j)"] by simp
    ultimately show False by simp
  qed
  show ?thesis using un ord by blast
qed

text \<open>A page with no keyword after a page of the fourth keyword.\<close>

lemma value_idempotent:
  "ordered_value priority filename_map (ordered_value priority filename_map image_paths)
   = ordered_value priority filename_map image_paths"
proof -
  let ?k = "key_value priority filename_map"
  let ?out = "indexed_sorted_value priority filename_map image_paths"
  let ?ys = "ordered_value priority filename_map image_paths"
  have "sorted (map key3 (map ?k ?out))"
    using sorted_indexed_sorted_value [of priority filename_map image_paths]
    by (simp add: sorted_iff_nth_mono key_le_key3 del: map_map)
  moreover have "map key3 (map ?k ?out) = map (\<lambda>p. key3 (?k (0, p))) ?ys"
    by (auto simp: ordered_value_def intro: key3_key_value)
  ultimately have "sorted (map ?k (enumerate 0 ?ys))"
    by (simp add: sorted_enumerate_key)
  then have "indexed_sorted_value priority filename_map ?ys = enumerate 0 ?ys"
    unfolding indexed_sorted_value_def by (rule sort_key_id_if_sorted)
  then show ?thesis
    by (simp add: ordered_value_def [of _ _ ?ys] map_snd_enumerate)
qed

section \<open>The matcher finds the leftmost, longest token\<close>

lemma match_lit_Some:
  "match_lit p s = Some r \<longleftrightarrow> (\<exists>t. s = t @ r \<and> lower t = p)"
proof (induction p s rule: match_lit.induct)
  case (1 s)
  then show ?case by (auto simp: lower_def)
next
  case (2 p ps)
  then show ?case by (auto simp: lower_def)
next
  case (3 p ps c cs)
  show ?case
  proof
    assume "match_lit (p # ps) (c # cs) = Some r"
    then have c: "lower_char c = p" and "match_lit ps cs = Some r"
      by (auto split: if_splits)
    with 3 obtain t where "cs = t @ r" "lower t = ps" by auto
    with c have "c # cs = (c # t) @ r \<and> lower (c # t) = p # ps"
      by (simp add: lower_def)
    then show "\<exists>t. c # cs = t @ r \<and> lower t = p # ps" by blast
  next
    assume "\<exists>t. c # cs = t @ r \<and> lower t = p # ps"
    then obtain t where t: "c # cs = t @ r" "lower t = p # ps" by blast
    then obtain t' where t': "t = c # t'" by (cases t) (auto simp: lower_def)
    with t have "lower_char c = p" "cs = t' @ r" "lower t' = ps"
      by (auto simp: lower_def)
    with 3 show "match_lit (p # ps) (c # cs) = Some r" by auto
  qed
qed

lemma not_space_n: "lower_char c = CHR ''n'' \<Longrightarrow> \<not> is_space c"
  by (cases c) (auto simp: lower_char_def is_space_def Let_def split: if_splits)

lemma digit_not_space: "is_digit c \<Longrightarrow> \<not> is_space c"
  by (auto simp: is_digit_def is_space_def Let_def)

lemma digit_not_dot: "is_digit c \<Longrightarrow> c \<noteq> CHR ''.''"
  by (auto simp: is_digit_def)

lemma space_not_dot: "is_space c \<Longrightarrow> c \<noteq> CHR ''.''"
  by (auto simp: is_space_def)

lemma dropWhile_all: "list_all P xs \<Longrightarrow> (case ys of [] \<Rightarrow> True | y # _ \<Rightarrow> \<not> P y) \<Longrightarrow> dropWhile P (xs @ ys) = ys"
  by (induction xs) (auto split: list.splits)

lemma takeWhile_all: "list_all P xs \<Longrightarrow> (case ys of [] \<Rightarrow> True | y # _ \<Rightarrow> \<not> P y) \<Longrightarrow> takeWhile P (xs @ ys) = xs"
  by (induction xs) (auto split: list.splits)

lemma PAGE_RE_match_complete:
  assumes "page_token t ds" "no_digit_next r"
  shows "PAGE_RE_match (t @ r) = Some (ds, r)"
proof -
  from assms(1) obtain pg ws1 no dot ws2 where
    t: "t = pg @ ws1 @ no @ dot @ ws2 @ ds" and pg: "lower pg = ''page''" and
    ws1: "list_all is_space ws1" and no: "lower no = ''no''" and
    dot: "dot = [] \<or> dot = ''.''" and ws2: "list_all is_space ws2" and
    ds: "ds \<noteq> []" "list_all is_digit ds"
    unfolding page_token_def by blast
  have 1: "match_lit ''page'' (t @ r) = Some (ws1 @ no @ dot @ ws2 @ ds @ r)"
    using pg by (subst match_lit_Some) (auto simp: t)
  obtain n1 n2 where no': "no = [n1, n2]" "lower_char n1 = CHR ''n''"
    using no by (auto simp: lower_def)
  have 2: "dropWhile is_space (ws1 @ no @ dot @ ws2 @ ds @ r) = no @ dot @ ws2 @ ds @ r"
    using ws1 no' by (intro dropWhile_all) (auto simp: not_space_n)
  have 3: "match_lit ''no'' (no @ dot @ ws2 @ ds @ r) = Some (dot @ ws2 @ ds @ r)"
    using no by (subst match_lit_Some) auto
  obtain d ds' where d: "ds = d # ds'" "is_digit d" using ds by (cases ds) auto
  have 4: "opt_dot (dot @ ws2 @ ds @ r) = ws2 @ ds @ r"
    using dot ws2 d by (cases ws2) (auto simp: opt_dot_def space_not_dot digit_not_dot)
  have 5: "dropWhile is_space (ws2 @ ds @ r) = ds @ r"
    using ws2 d by (intro dropWhile_all) (auto simp: digit_not_space)
  have 6: "takeWhile is_digit (ds @ r) = ds" "dropWhile is_digit (ds @ r) = r"
    using ds(2) assms(2) by (auto simp: no_digit_next_def intro: takeWhile_all dropWhile_all)
  show ?thesis
    using ds(1) by (simp add: PAGE_RE_match_def 1 2 3 4 5 6 del: match_lit.simps)
qed

lemma no_digit_next_dropWhile: "no_digit_next (dropWhile is_digit s)"
  by (induction s) (auto simp: no_digit_next_def split: list.splits)

lemma opt_dot_cases: "\<exists>dot. s = dot @ opt_dot s \<and> (dot = [] \<or> dot = ''.'')"
  by (cases s) (auto simp: opt_dot_def)

lemma PAGE_RE_match_sound:
  assumes "PAGE_RE_match s = Some (ds, r)"
  shows "\<exists>t. s = t @ r \<and> page_token t ds \<and> no_digit_next r"
proof -
  from assms obtain s1 s2 where
    s1: "match_lit ''page'' s = Some s1" and
    s2: "match_lit ''no'' (dropWhile is_space s1) = Some s2" and
    ds: "ds = takeWhile is_digit (dropWhile is_space (opt_dot s2))" "ds \<noteq> []" and
    r: "r = dropWhile is_digit (dropWhile is_space (opt_dot s2))"
    by (auto simp: PAGE_RE_match_def Let_def split: option.splits if_splits)
  from s1 obtain pg where pg: "s = pg @ s1" "lower pg = ''page''"
    by (auto simp: match_lit_Some)
  from s2 obtain no where no: "dropWhile is_space s1 = no @ s2" "lower no = ''no''"
    by (auto simp: match_lit_Some)
  obtain dot where dot: "s2 = dot @ opt_dot s2" "dot = [] \<or> dot = ''.''"
    using opt_dot_cases by blast
  define ws1 where "ws1 = takeWhile is_space s1"
  define ws2 where "ws2 = takeWhile is_space (opt_dot s2)"
  have "opt_dot s2 = ws2 @ ds @ r"
    unfolding ws2_def ds r by simp
  then have "s2 = dot @ ws2 @ ds @ r" using dot(1) by simp
  moreover have "s1 = ws1 @ no @ s2"
    unfolding ws1_def no(1) [symmetric] by simp
  ultimately have "s = (pg @ ws1 @ no @ dot @ ws2 @ ds) @ r"
    using pg(1) by simp
  moreover have "list_all is_space ws1" "list_all is_space ws2" "list_all is_digit ds"
    unfolding ws1_def ws2_def ds
    by (auto simp: list_all_iff dest: set_takeWhileD)
  then have "page_token (pg @ ws1 @ no @ dot @ ws2 @ ds) ds"
    unfolding page_token_def using pg(2) no(2) dot(2) ds(2) by blast
  moreover have "no_digit_next r" unfolding r by (rule no_digit_next_dropWhile)
  ultimately show ?thesis by blast
qed

lemma page_token_extend:
  assumes "page_token t ds"
  shows "page_token (t @ takeWhile is_digit r) (ds @ takeWhile is_digit r)"
proof -
  from assms obtain pg ws1 no dot ws2 where
    t: "t = pg @ ws1 @ no @ dot @ ws2 @ ds" and pg: "lower pg = ''page''" and
    ws1: "list_all is_space ws1" and no: "lower no = ''no''" and
    dot: "dot = [] \<or> dot = ''.''" and ws2: "list_all is_space ws2" and
    ds: "ds \<noteq> []" "list_all is_digit ds"
    unfolding page_token_def by blast
  have "list_all is_digit (ds @ takeWhile is_digit r)"
    using ds(2) by (auto simp: list_all_iff dest: set_takeWhileD)
  moreover have "t @ takeWhile is_digit r = pg @ ws1 @ no @ dot @ ws2 @ ds @ takeWhile is_digit r"
    by (simp add: t)
  ultimately show ?thesis
    unfolding page_token_def using pg ws1 no dot ws2 ds(1)
    by (metis append_is_Nil_conv)
qed

lemma PAGE_RE_match_None: "PAGE_RE_match s = None \<longleftrightarrow> \<not> token_at s"
proof
  assume n: "PAGE_RE_match s = None"
  show "\<not> token_at s"
  proof
    assume "token_at s"
    then obtain t ds r where s: "s = t @ r" "page_token t ds"
      by (auto simp: token_at_def)
    have "PAGE_RE_match ((t @ takeWhile is_digit r) @ dropWhile is_digit r)
            = Some (ds @ takeWhile is_digit r, dropWhile is_digit r)"
      by (intro PAGE_RE_match_complete page_token_extend s(2) no_digit_next_dropWhile)
    with n s(1) show False by simp
  qed
next
  assume n: "\<not> token_at s"
  show "PAGE_RE_match s = None"
  proof (cases "PAGE_RE_match s")
    case None
    then show ?thesis .
  next
    case (Some m)
    obtain ds r where "m = (ds, r)" by (cases m)
    with Some PAGE_RE_match_sound [of s ds r] have "token_at s"
      unfolding token_at_def by blast
    with n show ?thesis by simp
  qed
qed

lemma PAGE_RE_search_match: "PAGE_RE_match s = Some m \<Longrightarrow> PAGE_RE_search s = Some m"
  by (cases s) auto

lemma leftmost_Cons: "leftmost (c # pre) s \<longleftrightarrow> \<not> token_at (c # pre @ s) \<and> leftmost pre s"
  unfolding leftmost_def
  by (auto simp: less_Suc_eq_0_disj)

lemma leftmost_Nil [simp]: "leftmost [] s"
  by (simp add: leftmost_def)

lemma PAGE_RE_search_found:
  assumes "leftmost pre (t @ r)" "page_token t ds" "no_digit_next r"
  shows "PAGE_RE_search (pre @ t @ r) = Some (ds, r)"
  using assms(1)
proof (induction pre)
  case Nil
  show ?case using PAGE_RE_match_complete [OF assms(2,3)]
    by (simp add: PAGE_RE_search_match)
next
  case (Cons c pre)
  then have "PAGE_RE_match (c # pre @ t @ r) = None" "leftmost pre (t @ r)"
    by (auto simp: leftmost_Cons PAGE_RE_match_None)
  with Cons.IH show ?case by simp
qed

lemma PAGE_RE_search_None: "PAGE_RE_search s = None \<longleftrightarrow> (\<forall>i \<le> length s. \<not> token_at (drop i s))"
proof (induction s)
  case Nil
  then show ?case by (simp add: PAGE_RE_match_None)
next
  case (Cons c s)
  have "(\<forall>i \<le> length (c # s). \<not> token_at (drop i (c # s))) \<longleftrightarrow>
        \<not> token_at (c # s) \<and> (\<forall>i \<le> length s. \<not> token_at (drop i s))"
    by (auto simp: drop_Cons split: nat.splits)
  moreover have "PAGE_RE_search (c # s) = None \<longleftrightarrow>
       PAGE_RE_match (c # s) = None \<and> PAGE_RE_search s = None"
    by (auto split: option.splits)
  ultimately show ?case using Cons
    by (simp add: PAGE_RE_match_None)
qed

lemma PAGE_RE_search_Some:
  assumes "PAGE_RE_search s = Some (ds, r)"
  shows "\<exists>pre t. s = pre @ t @ r \<and> leftmost pre (t @ r) \<and> page_token t ds \<and> no_digit_next r"
  using assms
proof (induction s)
  case Nil
  then show ?case using PAGE_RE_match_sound [of "[]" ds r]
    by (metis PAGE_RE_search.simps(1) append_Nil leftmost_Nil)
next
  case (Cons c s)
  show ?case
  proof (cases "PAGE_RE_match (c # s)")
    case None
    with Cons.prems have "PAGE_RE_search s = Some (ds, r)" by simp
    from Cons.IH [OF this] obtain pre t where
      "s = pre @ t @ r" "leftmost pre (t @ r)" "page_token t ds" "no_digit_next r" by blast
    moreover from this None have "leftmost (c # pre) (t @ r)"
      by (simp add: leftmost_Cons PAGE_RE_match_None)
    ultimately have "c # s = (c # pre) @ t @ r \<and> leftmost (c # pre) (t @ r) \<and>
       page_token t ds \<and> no_digit_next r" by simp
    then show ?thesis by blast
  next
    case (Some m)
    with Cons.prems have "PAGE_RE_match (c # s) = Some (ds, r)" by simp
    from PAGE_RE_match_sound [OF this] obtain t where
      "c # s = [] @ t @ r" "page_token t ds" "no_digit_next r" by auto
    then show ?thesis using leftmost_Nil by blast
  qed
qed

lemma PAGE_RE_sub_step:
  assumes "leftmost pre (t @ r)" "page_token t ds" "no_digit_next r"
  shows "PAGE_RE_sub (pre @ t @ r) = pre @ PAGE_RE_sub r"
  using assms(1)
proof (induction pre)
  case Nil
  have m: "PAGE_RE_match (t @ r) = Some (ds, r)"
    by (rule PAGE_RE_match_complete [OF assms(2,3)])
  then obtain c cs where "t @ r = c # cs"
    using assms(2) by (cases "t @ r") (auto simp: page_token_def)
  with m show ?case by simp
next
  case (Cons c pre)
  then have "PAGE_RE_match (c # pre @ t @ r) = None" "leftmost pre (t @ r)"
    by (auto simp: leftmost_Cons PAGE_RE_match_None)
  with Cons.IH show ?case by simp
qed

lemma PAGE_RE_sub_none:
  "(\<forall>i \<le> length s. \<not> token_at (drop i s)) \<Longrightarrow> PAGE_RE_sub s = s"
proof (induction s)
  case Nil
  then show ?case by simp
next
  case (Cons c s)
  from Cons.prems have "\<not> token_at (c # s)" by (metis drop0 le0)
  moreover from Cons.prems have "\<forall>i \<le> length s. \<not> token_at (drop i s)"
    by (metis Suc_le_mono drop_Suc_Cons length_Cons)
  moreover have "PAGE_RE_match (c # s) = None"
    using calculation(1) by (simp add: PAGE_RE_match_None)
  ultimately show ?case using Cons.IH by simp
qed

lemma page_token_intro:
  "lower pg = ''page'' \<Longrightarrow> list_all is_space ws1 \<Longrightarrow> lower no = ''no'' \<Longrightarrow>
   dot = [] \<or> dot = ''.'' \<Longrightarrow> list_all is_space ws2 \<Longrightarrow> ds \<noteq> [] \<Longrightarrow>
   list_all is_digit ds \<Longrightarrow> page_token (pg @ ws1 @ no @ dot @ ws2 @ ds) ds"
  unfolding page_token_def by blast

lemma claimed_token_intro:
  "lower pg = ''page'' \<Longrightarrow> list_all is_space ws1 \<Longrightarrow>
   dot = [] \<or> dot = ''.'' \<Longrightarrow> list_all is_space ws2 \<Longrightarrow> ds \<noteq> [] \<Longrightarrow>
   list_all is_digit ds \<Longrightarrow> claimed_token (pg @ ws1 @ dot @ ws2 @ ds) ds"
  unfolding claimed_token_def by blast

lemma leftmost_code: "leftmost pre s \<longleftrightarrow> (\<forall>i < length pre. PAGE_RE_match (drop i (pre @ s)) = None)"
  by (simp add: leftmost_def PAGE_RE_match_None)

section \<open>The sort with keys that may raise\<close>

lemma map_keys_Inr:
  "(\<forall>x \<in> set xs. f x = Inr (g x)) \<Longrightarrow> map_keys f xs = Inr (map (\<lambda>x. (g x, x)) xs)"
  by (induction xs) auto


lemma map_keys_all_Inr:
  "map_keys f xs = Inr kxs \<Longrightarrow> \<forall>x \<in> set xs. \<exists>k. f x = Inr k"
  by (induction xs arbitrary: kxs) (auto split: sum.splits)

lemma insort_key_keyed:
  "(\<forall>y \<in> set ys. fst y = g (snd y)) \<Longrightarrow>
   map snd (insort_key fst (g x, x) ys) = insort_key g x (map snd ys)"
  by (induction ys) auto

lemma sort_key_keyed: "map snd (sort_key fst (map (\<lambda>x. (g x, x)) xs)) = sort_key g xs"
proof (induction xs)
  case Nil
  then show ?case by simp
next
  case (Cons x xs)
  have "\<forall>y \<in> set (sort_key fst (map (\<lambda>x. (g x, x)) xs)). fst y = g (snd y)"
    by auto
  then show ?case using Cons.IH by (simp add: insort_key_keyed)
qed

lemma list_sort_key_Inr:
  "(\<forall>x \<in> set xs. f x = Inr (g x)) \<Longrightarrow> list_sort_key f xs = Inr (sort_key g xs)"
  using map_keys_Inr [of xs f g] by (simp add: list_sort_key_def sort_key_keyed)


lemma list_sort_key_all_Inr:
  "list_sort_key f xs = Inr ys \<Longrightarrow> \<forall>x \<in> set xs. \<exists>k. f x = Inr k"
  by (auto simp: list_sort_key_def dest: map_keys_all_Inr split: sum.splits)

lemma build_sort_key_ok:
  "key_ok filename_map (snd pair) \<Longrightarrow>
   build_sort_key_with_map priority filename_map pair = Inr (key_value priority filename_map pair)"
  by (auto simp: build_sort_key_with_map_def key_value_def key_ok_def page_num_def py_int_def
        Let_def split: option.splits)

lemma build_sort_key_not_ok:
  assumes "\<not> key_ok filename_map (snd pair)"
  shows "\<exists>ds r e. PAGE_RE_search (lower (display_name filename_map (snd pair))) = Some (ds, r) \<and>
           4300 < length ds \<and> py_int ds = Inl e \<and>
           build_sort_key_with_map priority filename_map pair = Inl e"
proof -
  from assms obtain ds r where
    s: "PAGE_RE_search (lower (display_name filename_map (snd pair))) = Some (ds, r)" and
    l: "4300 < length ds"
    by (auto simp: key_ok_def split: option.splits)
  from l obtain e where e: "py_int ds = Inl e" by (simp add: py_int_def)
  then have "build_sort_key_with_map priority filename_map pair = Inl e"
    using s by (simp add: build_sort_key_with_map_def page_num_def Let_def)
  with s l e show ?thesis by blast
qed

lemma build_sort_key_Inr:
  "build_sort_key_with_map priority filename_map pair = Inr k \<Longrightarrow>
   key_ok filename_map (snd pair) \<and> k = key_value priority filename_map pair"
  using build_sort_key_ok [of filename_map pair priority]
    build_sort_key_not_ok [of filename_map pair priority]
  by (cases "key_ok filename_map (snd pair)") auto

lemma indexed_sorted_ok:
  assumes "\<forall>p \<in> set image_paths. key_ok filename_map p"
  shows "indexed_sorted priority filename_map image_paths
           = Inr (indexed_sorted_value priority filename_map image_paths)"
proof -
  have "\<forall>x \<in> set (enumerate 0 image_paths).
          build_sort_key_with_map priority filename_map x = Inr (key_value priority filename_map x)"
    using assms by (auto simp: in_set_enumerate_eq intro!: build_sort_key_ok)
  then show ?thesis
    unfolding indexed_sorted_def indexed_sorted_value_def by (rule list_sort_key_Inr)
qed

lemma set_snd_enumerate: "snd ` set (enumerate n xs) = set xs"
proof -
  have "set (map snd (enumerate n xs)) = set xs" by (simp only: map_snd_enumerate)
  then show ?thesis by (simp only: set_map)
qed

lemma indexed_sorted_Inr:
  assumes "indexed_sorted priority filename_map image_paths = Inr out"
  shows "(\<forall>p \<in> set image_paths. key_ok filename_map p) \<and>
         out = indexed_sorted_value priority filename_map image_paths"
proof -
  have ok: "key_ok filename_map p" if "p \<in> set image_paths" for p
  proof -
    from that have "p \<in> snd ` set (enumerate 0 image_paths)"
      by (simp only: set_snd_enumerate)
    then obtain x where x: "x \<in> set (enumerate 0 image_paths)" "snd x = p" by auto
    from list_sort_key_all_Inr [OF assms [unfolded indexed_sorted_def]] x(1)
    obtain k where "build_sort_key_with_map priority filename_map x = Inr k" by blast
    from build_sort_key_Inr [OF this] x(2) show ?thesis by simp
  qed
  then have "\<forall>p \<in> set image_paths. key_ok filename_map p" by blast
  with indexed_sorted_ok [OF this, of priority] assms show ?thesis by simp
qed


lemma ordered_ok:
  "\<forall>p \<in> set image_paths. key_ok filename_map p \<Longrightarrow>
   ordered priority filename_map image_paths
     = Inr (ordered_value priority filename_map image_paths)"
  by (simp add: ordered_def indexed_sorted_ok ordered_value_def)

lemma ordered_Inr:
  "ordered priority filename_map image_paths = Inr ps \<Longrightarrow>
   (\<forall>p \<in> set image_paths. key_ok filename_map p) \<and>
   ps = ordered_value priority filename_map image_paths"
  by (auto simp: ordered_def ordered_value_def dest: indexed_sorted_Inr split: sum.splits)




section \<open>Rounding\<close>

lemma round_half_even_of_int: "round_half_even (of_int n) = n"
  by (simp add: round_half_even_def)

lemma round_half_even_le: 
  assumes "y \<le> of_int n" shows "round_half_even y \<le> n"
proof -
  have f: "\<lfloor>y\<rfloor> \<le> n" using assms by (simp add: floor_le_iff)
  show ?thesis
  proof (cases "\<lfloor>y\<rfloor> = n")
    case True
    then have "y - of_int \<lfloor>y\<rfloor> \<le> 0" using assms by simp
    then have "y - of_int \<lfloor>y\<rfloor> < 1 / 2" by linarith
    then show ?thesis using True by (simp add: round_half_even_def)
  next
    case False
    with f have "\<lfloor>y\<rfloor> + 1 \<le> n" by simp
    then show ?thesis using f by (simp add: round_half_even_def Let_def)
  qed
qed

lemma round_half_even_nonneg: "0 \<le> y \<Longrightarrow> 0 \<le> round_half_even y"
  by (simp add: round_half_even_def Let_def)

lemma ilog2_lower:
  assumes "0 < a" shows "2 powi (ilog2 a) \<le> a"
proof -
  obtain p q where pq: "quotient_of a = (p, q)" by (cases "quotient_of a")
  then have q: "0 < q" and a: "a = of_int p / of_int q"
    using quotient_of_denom_pos quotient_of_div by auto
  with assms have p: "0 < p" by (simp add: zero_less_divide_iff)
  define d where "d = bitlen p - bitlen q"
  show ?thesis
  proof (cases "2 powi d \<le> a")
    case True
    then show ?thesis by (simp add: ilog2_def pq d_def)
  next
    case False
    have lp: "(2::rat) powi (bitlen p - 1) \<le> of_int p"
    proof -
      have "0 \<le> bitlen p - 1" using p by (simp add: bitlen_alt_def)
      then have "(2::rat) powi (bitlen p - 1) = 2 ^ nat (bitlen p - 1)"
        by (simp add: power_int_def)
      also have "\<dots> = of_int (2 ^ nat (bitlen p - 1))" by simp
      also have "\<dots> \<le> of_int p"
        using bitlen_bounds [OF p] by (subst of_int_le_iff) simp
      finally show ?thesis .
    qed
    have lq: "of_int q \<le> (2::rat) powi (bitlen q)"
    proof -
      have "of_int q \<le> (of_int (2 ^ nat (bitlen q)) :: rat)"
        using bitlen_bounds [OF q] by (subst of_int_le_iff) simp
      also have "\<dots> = 2 powi (bitlen q)"
        using bitlen_nonneg [of q] by (simp add: power_int_def)
      finally show ?thesis .
    qed
    have "(2::rat) powi (d - 1) = 2 powi (bitlen p - 1) / 2 powi (bitlen q)"
      by (simp add: d_def power_int_diff)
    also have "\<dots> \<le> of_int p / 2 powi (bitlen q)"
      using lp by (simp add: divide_right_mono)
    also have "\<dots> \<le> of_int p / of_int q"
      using lq p q by (intro frac_le) simp_all
    also have "\<dots> = a" by (simp add: a)
    finally show ?thesis using False by (simp add: ilog2_def pq d_def)
  qed
qed

lemma ilog2_upper:
  assumes "0 < a" shows "a < 2 powi (ilog2 a + 1)"
proof -
  obtain p q where pq: "quotient_of a = (p, q)" by (cases "quotient_of a")
  then have q: "0 < q" and a: "a = of_int p / of_int q"
    using quotient_of_denom_pos quotient_of_div by auto
  with assms have p: "0 < p" by (simp add: zero_less_divide_iff)
  define d where "d = bitlen p - bitlen q"
  show ?thesis
  proof (cases "2 powi d \<le> a")
    case False
    then show ?thesis by (simp add: ilog2_def pq d_def)
  next
    case True
    have lp: "of_int p < (2::rat) powi (bitlen p)"
    proof -
      have "of_int p < (of_int (2 ^ nat (bitlen p)) :: rat)"
        using bitlen_bounds [OF p] by (subst of_int_less_iff) simp
      also have "\<dots> = 2 powi (bitlen p)"
        using bitlen_nonneg [of p] by (simp add: power_int_def)
      finally show ?thesis .
    qed
    have lq: "(2::rat) powi (bitlen q - 1) \<le> of_int q"
    proof -
      have "0 \<le> bitlen q - 1" using q by (simp add: bitlen_alt_def)
      then have "(2::rat) powi (bitlen q - 1) = 2 ^ nat (bitlen q - 1)"
        by (simp add: power_int_def)
      also have "\<dots> = of_int (2 ^ nat (bitlen q - 1))" by simp
      also have "\<dots> \<le> of_int q"
        using bitlen_bounds [OF q] by (subst of_int_le_iff) simp
      finally show ?thesis .
    qed
    have "of_int p / of_int q \<le> of_int p / (2::rat) powi (bitlen q - 1)"
      using lq p by (intro frac_le) simp_all
    also have "\<dots> < 2 powi (bitlen p) / 2 powi (bitlen q - 1)"
      using lp by (simp add: divide_strict_right_mono)
    also have "\<dots> = 2 powi (d + 1)"
    proof -
      have "(2::rat) powi (bitlen p - (bitlen q - 1)) = 2 powi (bitlen p) / 2 powi (bitlen q - 1)"
        by (rule power_int_diff) simp
      moreover have "bitlen p - (bitlen q - 1) = d + 1" by (simp add: d_def)
      ultimately show ?thesis by (simp only:)
    qed
    finally have "a < 2 powi (d + 1)" by (simp add: a)
    then show ?thesis using True by (simp add: ilog2_def pq d_def)
  qed
qed

lemma ilog2_le_52:
  assumes "0 < a" "a < 2 ^ 53" shows "ilog2 a \<le> 52"
proof -
  have "(2::rat) powi (ilog2 a) < 2 powi 53"
    using ilog2_lower [OF assms(1)] assms(2) by simp
  then have "ilog2 a < 53"
    by (rule power_int_le_imp_less_exp [rotated]) simp_all
  then show ?thesis by simp
qed

lemma fl_unit:
  assumes "e \<le> 52"
  shows "of_int n / (2::rat) powi (e - 52) = of_int (n * 2 ^ nat (52 - e))"
    and "of_int (n * 2 ^ nat (52 - e)) * (2::rat) powi (e - 52) = of_int n"
proof -
  have "(2::rat) powi (e - 52) = inverse (2 powi (52 - e))"
    by (simp add: power_int_minus [symmetric])
  also have "\<dots> = inverse (2 ^ nat (52 - e))"
    using assms by (simp add: power_int_def)
  finally have u: "(2::rat) powi (e - 52) = inverse (2 ^ nat (52 - e))" .
  show "of_int n / (2::rat) powi (e - 52) = of_int (n * 2 ^ nat (52 - e))"
    by (simp add: u divide_inverse)
  show "of_int (n * 2 ^ nat (52 - e)) * (2::rat) powi (e - 52) = of_int n"
    by (simp add: u)
qed

lemma fl_le_int:
  assumes "0 \<le> n" "n < 2 ^ 53" "x \<le> of_int n"
  shows "fl x \<le> of_int n"
proof -
  consider "x = 0" | "x < 0" | "0 < x" by linarith
  then show ?thesis
  proof cases
    case 1
    then show ?thesis using assms(1) by (simp add: fl_def)
  next
    case 2
    define e where "e = max (ilog2 \<bar>x\<bar>) (- 1022)"
    have "0 \<le> of_int (round_half_even (\<bar>x\<bar> / 2 powi (e - 52))) * (2::rat) powi (e - 52)"
      by (intro mult_nonneg_nonneg) (simp_all add: round_half_even_nonneg)
    then have "fl x \<le> 0"
      using 2 by (simp add: fl_def Let_def e_def)
    then show ?thesis using assms(1) by (meson of_int_0_le_iff order_trans)
  next
    case 3
    define e where "e = max (ilog2 x) (- 1022)"
    have "x < 2 ^ 53"
    proof -
      have "x \<le> of_int n" by fact
      also have "(of_int n :: rat) < of_int (2 ^ 53)" using assms(2) by (subst of_int_less_iff)
      finally show ?thesis by simp
    qed
    then have e: "e \<le> 52"
      using ilog2_le_52 [OF 3] by (simp add: e_def)
    have "x / 2 powi (e - 52) \<le> of_int n / 2 powi (e - 52)"
      using assms(3) by (simp add: divide_right_mono)
    then have "round_half_even (x / 2 powi (e - 52)) \<le> n * 2 ^ nat (52 - e)"
      by (intro round_half_even_le) (simp only: fl_unit(1) [OF e])
    then have "(of_int (round_half_even (x / 2 powi (e - 52))) :: rat) \<le> of_int (n * 2 ^ nat (52 - e))"
      by (subst of_int_le_iff)
    then have "of_int (round_half_even (x / 2 powi (e - 52))) * (2::rat) powi (e - 52)
                \<le> of_int (n * 2 ^ nat (52 - e)) * 2 powi (e - 52)"
      by (intro mult_right_mono) simp_all
    then show ?thesis
      using 3 by (simp only: fl_unit(2) [OF e]) (simp add: fl_def Let_def e_def)
  qed
qed

lemma fl_of_int:
  assumes "0 \<le> n" "n < 2 ^ 53"
  shows "fl (of_int n) = of_int n"
proof (cases "n = 0")
  case True
  then show ?thesis by (simp add: fl_def)
next
  case False
  with assms have n: "0 < n" by simp
  define e where "e = max (ilog2 (of_int n)) (- 1022)"
  have "(of_int n :: rat) < of_int (2 ^ 53)" using assms(2) by (subst of_int_less_iff)
  then have e: "e \<le> 52"
    using ilog2_le_52 [of "of_int n"] n by (simp add: e_def)
  have "of_int (round_half_even (of_int n / 2 powi (e - 52))) * (2::rat) powi (e - 52) = of_int n"
    by (simp only: fl_unit [OF e] round_half_even_of_int)
  then show ?thesis
    using n by (simp add: fl_def Let_def e_def)
qed

lemma py_trunc_le:
  assumes "0 \<le> n" "x \<le> of_int n" shows "py_trunc x \<le> n"
proof (cases "0 \<le> x")
  case True
  then show ?thesis using assms(2) by (simp add: py_trunc_def floor_le_iff)
next
  case False
  then have "\<lceil>x\<rceil> \<le> 0" by (simp add: ceiling_le_iff)
  then have "\<lceil>x\<rceil> \<le> n" using assms(1) by linarith
  then show ?thesis using False by (simp add: py_trunc_def)
qed

lemma int_of_product_le:
  assumes "0 \<le> d" "d < 2 ^ 53" "scale < 1" "int_of_product d scale = Inr n"
  shows "n \<le> d"
proof -
  have wf: "fl (of_int d) = of_int d" using assms(1,2) by (rule fl_of_int)
  from assms(4) have n: "n = py_trunc (fl (of_int d * scale))"
    by (simp add: int_of_product_def wf Let_def split: if_splits)
  have "of_int d * scale \<le> (of_int d :: rat)"
    using assms(1,3) by (simp add: mult_left_le)
  then have "fl (of_int d * scale) \<le> of_int d"
    by (rule fl_le_int [OF assms(1,2)])
  then show ?thesis unfolding n by (rule py_trunc_le [OF assms(1)])
qed

lemma true_div_le_1:
  assumes "m < d" "0 \<le> d" "true_div m d = Inr q"
  shows "q = fl (of_int m / of_int d)" "q \<le> 1"
proof -
  from assms(3) have "d \<noteq> 0" by (auto simp: true_div_def)
  with assms(2) have d: "0 < d" by simp
  show q: "q = fl (of_int m / of_int d)"
    using assms(3) d by (simp add: true_div_def Let_def split: if_splits)
  have "(of_int m :: rat) / of_int d \<le> of_int 1"
    using assms(1) d by simp
  then have "fl (of_int m / of_int d) \<le> of_int 1"
    by (intro fl_le_int) simp_all
  then show "q \<le> 1" by (simp add: q)
qed

lemma Min_Cons_append: "Min (set (Min (set (a # xs)) # ys)) = Min (set (a # xs @ ys))"
proof (cases "ys = []")
  case True
  then show ?thesis by simp
next
  case False
  have "Min (set (a # xs) \<union> set ys) = min (Min (set (a # xs))) (Min (set ys))"
    using False by (intro Min.union) simp_all
  moreover have "Min (set (Min (set (a # xs)) # ys)) = min (Min (set (a # xs))) (Min (set ys))"
    using False by (simp del: set_simps add: list.set(2) [of "Min (set (a # xs))" ys])
  ultimately show ?thesis by (simp del: Min_insert)
qed

lemma bound_scale_Inr:
  assumes "bound_scale s max_d d = Inr s'" "0 \<le> d"
  shows "s' = Min (set (s # exceeded_ratio max_d d))"
    and "\<forall>q \<in> set (exceeded_ratio max_d d). q \<le> 1"
proof -
  show "s' = Min (set (s # exceeded_ratio max_d d))"
  proof (cases max_d)
    case None
    with assms show ?thesis by (simp add: bound_scale_def exceeded_ratio_def)
  next
    case (Some m)
    show ?thesis
    proof (cases "m < d")
      case True
      with assms Some obtain q where q: "true_div m d = Inr q" "s' = min s q"
        by (auto simp: bound_scale_def split: sum.splits)
      from true_div_le_1(1) [OF True assms(2) q(1)] q(2) Some True
      show ?thesis by (simp add: exceeded_ratio_def)
    next
      case False
      with assms Some show ?thesis by (simp add: bound_scale_def exceeded_ratio_def)
    qed
  qed
  show "\<forall>q \<in> set (exceeded_ratio max_d d). q \<le> 1"
  proof (cases max_d)
    case None
    then show ?thesis by (simp add: exceeded_ratio_def)
  next
    case (Some m)
    show ?thesis
    proof (cases "m < d")
      case True
      with assms Some obtain q where q: "true_div m d = Inr q"
        by (auto simp: bound_scale_def split: sum.splits)
      from true_div_le_1 [OF True assms(2) q] Some True
      show ?thesis by (simp add: exceeded_ratio_def)
    next
      case False
      with Some show ?thesis by (simp add: exceeded_ratio_def)
    qed
  qed
qed

lemma resize_size: "resize im (nw, nh) = Inr im' \<Longrightarrow> width im' = nw \<and> height im' = nh"
  by (auto simp: resize_def split: if_splits)

lemma scale_image_Inr:
  assumes "0 \<le> width im" "width im < 2 ^ 53" "0 \<le> height im" "height im < 2 ^ 53"
    and r: "scale_image im max_w max_h = Inr im'"
  defines "rs \<equiv> exceeded_ratios im max_w max_h"
  defines "scale \<equiv> Min (set (1 # rs))"
  shows "width im' \<le> width im" "height im' \<le> height im"
    "scale \<le> 1" "rs \<noteq> [] \<Longrightarrow> scale = Min (set rs)"
    "scale < 1 \<Longrightarrow> width im' = py_trunc (fl (of_int (width im) * scale)) \<and>
                   height im' = py_trunc (fl (of_int (height im) * scale))"
    "\<not> scale < 1 \<Longrightarrow> im' = im"
proof -
  have both: "(\<forall>q \<in> set rs. q \<le> 1) \<and> (scale < 1 \<longrightarrow> (\<exists>nw nh. int_of_product (width im) scale = Inr nw \<and>
                int_of_product (height im) scale = Inr nh \<and> resize im (nw, nh) = Inr im')) \<and>
             (\<not> scale < 1 \<longrightarrow> im' = im)"
  proof (cases "max_w = None \<and> max_h = None")
    case True
    then have "rs = []" by (simp add: rs_def exceeded_ratios_def exceeded_ratio_def)
    moreover from True r have "im' = im" by (simp add: scale_image_def)
    ultimately show ?thesis by (simp add: scale_def)
  next
    case False
    with r obtain s1 s2 where
      s1: "bound_scale 1 max_w (width im) = Inr s1" and
      s2: "bound_scale s1 max_h (height im) = Inr s2" and
      rest: "(if s2 < 1
              then (case int_of_product (width im) s2 of
                      Inl e \<Rightarrow> Inl e
                    | Inr nw \<Rightarrow>
                        (case int_of_product (height im) s2 of
                           Inl e \<Rightarrow> Inl e
                         | Inr nh \<Rightarrow> resize im (nw, nh)))
              else Inr im) = Inr im'"
      by (auto simp: scale_image_def Let_def split: sum.splits)
    from bound_scale_Inr [OF s1 assms(1)] bound_scale_Inr [OF s2 assms(3)]
    have "s2 = Min (set (s1 # exceeded_ratio max_h (height im)))"
         "s1 = Min (set (1 # exceeded_ratio max_w (width im)))"
      and le: "\<forall>q \<in> set (exceeded_ratio max_w (width im)). q \<le> 1"
          "\<forall>q \<in> set (exceeded_ratio max_h (height im)). q \<le> 1"
      by auto
    then have "s2 = scale"
      unfolding scale_def rs_def exceeded_ratios_def
      by (simp only: Min_Cons_append)
    with rest have "(scale < 1 \<longrightarrow> (\<exists>nw nh. int_of_product (width im) scale = Inr nw \<and>
                int_of_product (height im) scale = Inr nh \<and> resize im (nw, nh) = Inr im')) \<and>
             (\<not> scale < 1 \<longrightarrow> im' = im)"
      by (auto split: if_splits sum.splits)
    moreover from le have "\<forall>q \<in> set rs. q \<le> 1"
      by (auto simp: rs_def exceeded_ratios_def)
    ultimately show ?thesis by blast
  qed
  then have le1: "\<forall>q \<in> set rs. q \<le> 1" and res: "(scale < 1 \<longrightarrow> (\<exists>nw nh. int_of_product (width im) scale = Inr nw \<and>
                int_of_product (height im) scale = Inr nh \<and> resize im (nw, nh) = Inr im')) \<and>
             (\<not> scale < 1 \<longrightarrow> im' = im)"
    by blast+
  show "scale \<le> 1" by (simp add: scale_def)
  show "scale = Min (set rs)" if "rs \<noteq> []"
  proof -
    have "Min (set rs) \<le> 1" using le1 that by (simp add: Min_le_iff)
    moreover have "scale = min 1 (Min (set rs))"
      using that by (simp add: scale_def)
    ultimately show ?thesis by (simp add: min_def)
  qed
  show "im' = im" if "\<not> scale < 1" using res that by simp
  show wh: "width im' = py_trunc (fl (of_int (width im) * scale)) \<and>
        height im' = py_trunc (fl (of_int (height im) * scale))" if "scale < 1"
  proof -
    from res that obtain nw nh where n: "int_of_product (width im) scale = Inr nw"
      "int_of_product (height im) scale = Inr nh" "resize im (nw, nh) = Inr im'" by blast
    have "fl (of_int (width im)) = of_int (width im)" "fl (of_int (height im)) = of_int (height im)"
      using assms(1-4) by (simp_all add: fl_of_int)
    with n(1,2) have "nw = py_trunc (fl (of_int (width im) * scale))"
       "nh = py_trunc (fl (of_int (height im) * scale))"
      by (auto simp: int_of_product_def Let_def split: if_splits)
    with resize_size [OF n(3)] show ?thesis by simp
  qed
  show "width im' \<le> width im"
  proof (cases "scale < 1")
    case True
    from res True obtain nw nh where n: "int_of_product (width im) scale = Inr nw"
      "int_of_product (height im) scale = Inr nh" "resize im (nw, nh) = Inr im'" by blast
    from int_of_product_le [OF assms(1,2) True n(1)] resize_size [OF n(3)]
    show ?thesis by simp
  next
    case False
    with res show ?thesis by simp
  qed
  show "height im' \<le> height im"
  proof (cases "scale < 1")
    case True
    from res True obtain nw nh where n: "int_of_product (width im) scale = Inr nw"
      "int_of_product (height im) scale = Inr nh" "resize im (nw, nh) = Inr im'" by blast
    from int_of_product_le [OF assms(3,4) True n(2)] resize_size [OF n(3)]
    show ?thesis by simp
  next
    case False
    with res show ?thesis by simp
  qed
qed

lemma bitlen_1: "bitlen 1 = 1" by (simp add: bitlen_alt_def)
lemma bitlen_2: "bitlen 2 = 2" by (simp add: bitlen_alt_def)

lemma fl_half: "fl (1 / 2) = 1 / 2"
proof -
  have "quotient_of (1 / 2) = (1, 2)" by code_simp
  then have "ilog2 (1 / 2) = - 1"
    by (simp add: ilog2_def bitlen_1 bitlen_2)
  then show ?thesis
    by (simp add: fl_def round_half_even_def)
qed

lemma not_overflow: "\<bar>x\<bar> \<le> 2 ^ 53 \<Longrightarrow> \<not> max_double < \<bar>x\<bar>"
proof -
  have "(2::rat) ^ 53 \<le> max_double" by (simp add: max_double_def)
  then show "\<bar>x\<bar> \<le> 2 ^ 53 \<Longrightarrow> \<not> max_double < \<bar>x\<bar>" by linarith
qed

lemma int_of_product_half:
  assumes "0 \<le> n" "n < 2 ^ 52"
  shows "int_of_product (2 * n) (1 / 2) = Inr n"
proof -
  have b: "0 \<le> 2 * n" "2 * n < 2 ^ 53" "n < 2 ^ 53" using assms by simp_all
  have 1: "fl (of_int (2 * n)) = of_int (2 * n)" by (rule fl_of_int [OF b(1,2)])
  have 2: "fl (of_int n) = of_int n" by (rule fl_of_int [OF assms(1) b(3)])
  have 3: "\<bar>of_int (2 * n) :: rat\<bar> \<le> 2 ^ 53" "\<bar>of_int n :: rat\<bar> \<le> 2 ^ 53"
    using b assms(1) by (simp_all add: of_int_le_numeral_power_cancel_iff [symmetric] del: of_int_le_numeral_power_cancel_iff)
  show ?thesis
    unfolding int_of_product_def Let_def 1
    using 2 3 not_overflow [OF 3(1)] not_overflow [OF 3(2)]
    by (simp add: py_trunc_def)
qed

lemma scale_image_example:
  "scale_image \<lparr>width = 1600, height = 1000, source = s, label = l\<rparr> (Some 800) None
     = Inr \<lparr>width = 800, height = 500, source = s, label = l\<rparr>"
proof -
  have "true_div 800 1600 = Inr (1 / 2)"
    using not_overflow [of "1 / 2"] by (simp add: true_div_def fl_half)
  moreover have "int_of_product 1600 (1 / 2) = Inr 800" "int_of_product 1000 (1 / 2) = Inr 500"
    using int_of_product_half [of 800] int_of_product_half [of 500] by simp_all
  ultimately show ?thesis
    by (simp add: scale_image_def bound_scale_def resize_def)
qed

section \<open>The loop over the pages\<close>

lemma process_loop_eq:
  "process_loop f ps st = (fst st @ successes f ps, snd st @ failures f ps)"
proof (induction ps arbitrary: st)
  case Nil
  then show ?case by (simp add: successes_def failures_def)
next
  case (Cons p ps)
  show ?case
  proof (cases "f p")
    case (Inl e)
    then show ?thesis by (simp add: Cons.IH successes_def failures_def)
  next
    case (Inr im)
    then show ?thesis by (simp add: Cons.IH successes_def failures_def)
  qed
qed

lemma generate_pdf_eq:
  "generate_pdf lib image_paths priority all_label font_size max_w max_h no_label filename_map =
     (case ordered priority filename_map image_paths of
        Inl e \<Rightarrow> ([], Inl e)
      | Inr ps \<Rightarrow>
          (let f = process_page lib all_label font_size max_w max_h no_label filename_map
           in (failures f ps,
               case successes f ps of
                 [] \<Rightarrow> Inl (ValueError ''No images processed'')
               | first # rest \<Rightarrow>
                   (case save_all lib first rest of
                      Inl e \<Rightarrow> Inl e
                    | Inr u \<Rightarrow> Inr (successes f ps, length (successes f ps))))))"
  by (simp add: generate_pdf_def process_loop_eq Let_def split: sum.splits list.splits)

lemma successes_Nil: "successes f ps = [] \<longleftrightarrow> (\<forall>p \<in> set ps. \<exists>e. f p = Inl e)"
  by (induction ps) (auto simp: successes_def split: sum.splits)

lemma set_successes: "set (successes f ps) = {im. \<exists>p \<in> set ps. f p = Inr im}"
  by (induction ps) (auto simp: successes_def split: sum.splits)



lemma process_page_open_fails:
  "open_rgb lib p = Inl e \<Longrightarrow>
   process_page lib all_label font_size max_w max_h no_label filename_map p = Inl e"
  by (simp add: process_page_def)

lemma mset_ordered_value: "mset (ordered_value priority filename_map image_paths) = mset image_paths"
proof -
  have "mset (indexed_sorted_value priority filename_map image_paths) = mset (enumerate 0 image_paths)"
    by (simp add: indexed_sorted_value_def)
  then have "mset (map snd (indexed_sorted_value priority filename_map image_paths))
               = mset (map snd (enumerate 0 image_paths))"
    by (metis mset_map)
  then show ?thesis by (simp only: ordered_value_def map_snd_enumerate)
qed

lemma set_ordered_value: "set (ordered_value priority filename_map image_paths) = set image_paths"
  using mset_ordered_value by (metis set_mset_mset)

lemma page_label_eq:
  "page_label all_label filename_map p =
     (case all_label of Some l \<Rightarrow> l | None \<Rightarrow> display_name filename_map p)"
  by (simp add: page_label_def display_name_def split: option.splits)

lemma scale_image_source_label:
  "scale_image im max_w max_h = Inr im' \<Longrightarrow> source im' = source im \<and> label im' = label im"
  by (auto simp: scale_image_def resize_def Let_def split: if_splits sum.splits)

lemma add_label_source_label:
  "add_label bbox im t = Inr im' \<Longrightarrow> source im' = source im \<and> label im' = Some t"
  by (auto simp: add_label_def Let_def split: if_splits sum.splits prod.splits)

lemma process_page_label:
  assumes "process_page lib all_label font_size max_w max_h False filename_map p = Inr im"
  shows "source im = p \<and> label im = Some (page_label all_label filename_map p)"
proof -
  from assms obtain w h im1 where
    "scale_image \<lparr>width = w, height = h, source = p, label = None\<rparr> max_w max_h = Inr im1"
    "add_label (textbbox lib font_size) im1 (page_label all_label filename_map p) = Inr im"
    by (auto simp: process_page_def split: sum.splits prod.splits)
  with scale_image_source_label add_label_source_label show ?thesis
    by fastforce
qed

lemma process_page_no_label:
  assumes "process_page lib all_label font_size max_w max_h True filename_map p = Inr im"
  shows "source im = p \<and> label im = None"
proof -
  from assms obtain w h where
    "scale_image \<lparr>width = w, height = h, source = p, label = None\<rparr> max_w max_h = Inr im"
    by (auto simp: process_page_def split: sum.splits prod.splits)
  with scale_image_source_label show ?thesis
    by fastforce
qed

section \<open>A name beyond the digit limit\<close>




section \<open>Evaluation\<close>

lemmas eval_defs =
  ordered_def indexed_sorted_def list_sort_key_def enumerate_eq_zip
  build_sort_key_with_map_def DEFAULT_PRIORITY_def lower_def display_name_def path_stem_def
  path_name_def pr_rank_def sublist_code prefix_code page_num_def py_int_def digits_value_def
  base_name_def strip_chars_def PAGE_RE_match_def is_space_def is_digit_def lower_char_def
  opt_dot_def digit_val_def key3_def

lemmas render_defs =
  generate_pdf_def process_page_def scale_image_def add_label_def page_label_def
  form_all_label_def sample_pil_def full_disk_pil_def

section \<open>The ranker\<close>



text \<open>
  Claim C3. With the default priority list, the pages named \<open>Dainik Bhaskar Page 2.jpg\<close>,
  \<open>Dainik Bhaskar Page 1.jpg\<close> and \<open>City Bhaskar Page 1.jpg\<close>, in this input order, come
  out as Dainik Bhaskar Page 1, Dainik Bhaskar Page 2, City Bhaskar Page 1; so they do
  when the names are kept without their suffix, as \<open>generate\<close> stores them.
\<close>

theorem rank_example:
  "ordered DEFAULT_PRIORITY
     (Some [''/tmp/u/Dainik_Bhaskar_Page_2.jpg'' \<mapsto> ''Dainik Bhaskar Page 2.jpg'',
            ''/tmp/u/Dainik_Bhaskar_Page_1.jpg'' \<mapsto> ''Dainik Bhaskar Page 1.jpg'',
            ''/tmp/u/City_Bhaskar_Page_1.jpg'' \<mapsto> ''City Bhaskar Page 1.jpg''])
     [''/tmp/u/Dainik_Bhaskar_Page_2.jpg'', ''/tmp/u/Dainik_Bhaskar_Page_1.jpg'',
      ''/tmp/u/City_Bhaskar_Page_1.jpg'']
   = Inr [''/tmp/u/Dainik_Bhaskar_Page_1.jpg'', ''/tmp/u/Dainik_Bhaskar_Page_2.jpg'',
          ''/tmp/u/City_Bhaskar_Page_1.jpg''] \<and>
   ordered DEFAULT_PRIORITY
     (Some [''/tmp/u/Dainik_Bhaskar_Page_2.jpg'' \<mapsto> ''Dainik Bhaskar Page 2'',
            ''/tmp/u/Dainik_Bhaskar_Page_1.jpg'' \<mapsto> ''Dainik Bhaskar Page 1'',
            ''/tmp/u/City_Bhaskar_Page_1.jpg'' \<mapsto> ''City Bhaskar Page 1''])
     [''/tmp/u/Dainik_Bhaskar_Page_2.jpg'', ''/tmp/u/Dainik_Bhaskar_Page_1.jpg'',
      ''/tmp/u/City_Bhaskar_Page_1.jpg'']
   = Inr [''/tmp/u/Dainik_Bhaskar_Page_1.jpg'', ''/tmp/u/Dainik_Bhaskar_Page_2.jpg'',
          ''/tmp/u/City_Bhaskar_Page_1.jpg'']"
  by (simp add: eval_defs)

text \<open>
  Claim C6, as the code has it. A page whose name contains no keyword of the priority list,
  in any case of the letters, has priority bucket \<open>len(priority) + 1\<close>, and comes after
  every page that matches some keyword.
\<close>

theorem unmatched_bucket:
  fixes priority filename_map image_paths
  defines "has \<equiv> \<lambda>path kw. sublist (lower kw) (lower (display_name filename_map path))"
  shows "(\<forall>path. (\<forall>kw \<in> set priority. \<not> has path kw) \<longrightarrow>
            pr_rank (map lower priority) (lower (display_name filename_map path))
              = length priority + 1) \<and>
         (\<forall>idx path k. (\<forall>kw \<in> set priority. \<not> has path kw) \<and>
            build_sort_key_with_map priority filename_map (idx, path) = Inr k \<longrightarrow>
            fst k = length priority + 1) \<and>
         (\<forall>out i j. indexed_sorted priority filename_map image_paths = Inr out \<and>
                i < length out \<and> j < length out \<and>
                (\<exists>kw \<in> set priority. has (snd (out ! i)) kw) \<and>
                (\<forall>kw \<in> set priority. \<not> has (snd (out ! j)) kw)
                \<longrightarrow> i < j)"
proof -
  have v1: "fst (key_value priority filename_map (idx, path)) = length priority + 1"
    if "\<forall>kw \<in> set priority. \<not> has path kw" for idx path
    using value_unmatched [of priority filename_map image_paths] that
    unfolding has_def by blast
  have v2: "i < j"
    if "i < length (indexed_sorted_value priority filename_map image_paths)"
       "j < length (indexed_sorted_value priority filename_map image_paths)"
       "\<exists>kw \<in> set priority.
          has (snd (indexed_sorted_value priority filename_map image_paths ! i)) kw"
       "\<forall>kw \<in> set priority.
          \<not> has (snd (indexed_sorted_value priority filename_map image_paths ! j)) kw" for i j
    using value_unmatched [of priority filename_map image_paths] that
    unfolding has_def by blast
  have 1: "pr_rank (map lower priority) (lower (display_name filename_map path))
              = length priority + 1"
    if "\<forall>kw \<in> set priority. \<not> has path kw" for path
    using that pr_rank_unmatched [of "map lower priority" "lower (display_name filename_map path)"]
    by (simp add: has_def)
  have 2: "fst k = length priority + 1"
    if "\<forall>kw \<in> set priority. \<not> has path kw"
       "build_sort_key_with_map priority filename_map (idx, path) = Inr k" for idx path k
  proof -
    from build_sort_key_Inr [OF that(2)]
    have "k = key_value priority filename_map (idx, path)" by simp
    with v1 [OF that(1), of idx] show ?thesis by simp
  qed
  have 3: "i < j"
    if "indexed_sorted priority filename_map image_paths = Inr out"
       "i < length out" "j < length out" "\<exists>kw \<in> set priority. has (snd (out ! i)) kw"
       "\<forall>kw \<in> set priority. \<not> has (snd (out ! j)) kw" for out i j
  proof -
    from indexed_sorted_Inr [OF that(1)]
    have out: "out = indexed_sorted_value priority filename_map image_paths" by simp
    show ?thesis by (rule v2 [OF that(2-5) [unfolded out]])
  qed
  from 1 2 3 show ?thesis by blast
qed

text \<open>A page with no keyword after a page of the fourth keyword.\<close>

theorem unmatched_bucket_witness:
  "indexed_sorted DEFAULT_PRIORITY None [''xyz.jpg'', ''First India.jpg'']
     = Inr [(1, ''First India.jpg''), (0, ''xyz.jpg'')] \<and>
   sublist (lower ''first india'') (lower (display_name None ''First India.jpg'')) \<and>
   first_kw (map lower DEFAULT_PRIORITY) (lower (display_name None ''xyz.jpg'')) 0 = None \<and>
   pr_rank (map lower DEFAULT_PRIORITY) (lower (display_name None ''xyz.jpg''))
     = length DEFAULT_PRIORITY + 1"
proof -
  have out: "indexed_sorted DEFAULT_PRIORITY None [''xyz.jpg'', ''First India.jpg'']
     = Inr [(1, ''First India.jpg''), (0, ''xyz.jpg'')]"
    by (simp add: eval_defs)
  have m: "sublist (lower ''first india'') (lower (display_name None ''First India.jpg''))"
    by (simp add: eval_defs)
  have n: "first_kw (map lower DEFAULT_PRIORITY) (lower (display_name None ''xyz.jpg'')) 0 = None"
    by (simp add: eval_defs)
  then have "\<forall>kw \<in> set DEFAULT_PRIORITY.
     \<not> sublist (lower kw) (lower (display_name None ''xyz.jpg''))"
    by (simp add: first_kw_None)
  with unmatched_bucket [of DEFAULT_PRIORITY None "[''xyz.jpg'', ''First India.jpg'']"]
  have "pr_rank (map lower DEFAULT_PRIORITY) (lower (display_name None ''xyz.jpg''))
     = length DEFAULT_PRIORITY + 1"
    by blast
  with out m n show ?thesis by blast
qed

text \<open>
  No keyword of the default list occurs in \<open>xyz\<close>; its bucket is 6, and the list has 5
  entries.
\<close>

theorem unmatched_bucket_counterexample:
  "first_kw (map lower DEFAULT_PRIORITY) (lower (display_name None ''xyz.jpg'')) 0 = None \<and>
   build_sort_key_with_map DEFAULT_PRIORITY None (0, ''xyz.jpg'') = Inr (6, ''xyz'', 0, 0) \<and>
   length DEFAULT_PRIORITY = 5"
  by (simp add: eval_defs)

text \<open>
  Claim C9. Ranking is a function of the priority list and the pages, and ranking the
  ranked pages again, indexed by their new positions, gives the same sequence: the
  ranked pages when the first ranking returns them, and its exception when it raises.
\<close>

theorem rank_idempotent:
  "(case ordered priority filename_map image_paths of
      Inl e \<Rightarrow> Inl e
    | Inr ps \<Rightarrow> ordered priority filename_map ps)
   = ordered priority filename_map image_paths"
proof (cases "ordered priority filename_map image_paths")
  case (Inl e)
  then show ?thesis by simp
next
  case (Inr ps)
  from ordered_Inr [OF Inr] have
    ok: "\<forall>p \<in> set image_paths. key_ok filename_map p" and
    ps: "ps = ordered_value priority filename_map image_paths" by simp_all
  have "set ps = set image_paths" unfolding ps by (rule set_ordered_value)
  with ok have "\<forall>p \<in> set ps. key_ok filename_map p" by simp
  then have "ordered priority filename_map ps = Inr (ordered_value priority filename_map ps)"
    by (rule ordered_ok)
  also have "ordered_value priority filename_map ps = ps"
    unfolding ps by (rule value_idempotent)
  finally show ?thesis using Inr by simp
qed

section \<open>The page number and the base name\<close>

text \<open>
  Claim C2, as the code has it. The page number of a name is the integer of the digits
  captured by the leftmost match of \<open>page\<close>, optional whitespace, \<open>no\<close>, an optional dot,
  optional whitespace and one or more digits, in any case of the letters and with as many
  digits as follow; a name with no such match has page number 0. \<open>int\<close> gives the number
  that up to 4300 digits write, and raises on more.
\<close>

theorem page_num_pattern:
  "(page_num name = res \<longleftrightarrow>
     ((\<forall>i \<le> length name. \<not> token_at (drop i name)) \<and> res = Inr 0) \<or>
     (\<exists>pre t ds r. name = pre @ t @ r \<and> leftmost pre (t @ r) \<and> page_token t ds \<and>
        no_digit_next r \<and> res = py_int ds)) \<and>
   (\<forall>ds. length ds \<le> 4300 \<longrightarrow> py_int ds = Inr (digits_value ds)) \<and>
   (\<forall>ds. 4300 < length ds \<longrightarrow> (\<exists>msg. py_int ds = Inl (ValueError msg)))"
proof -
  have main: "page_num name = res \<longleftrightarrow>
     ((\<forall>i \<le> length name. \<not> token_at (drop i name)) \<and> res = Inr 0) \<or>
     (\<exists>pre t ds r. name = pre @ t @ r \<and> leftmost pre (t @ r) \<and> page_token t ds \<and>
        no_digit_next r \<and> res = py_int ds)"
  proof (cases "PAGE_RE_search name")
    case None
    then have no: "\<forall>i \<le> length name. \<not> token_at (drop i name)"
      by (simp add: PAGE_RE_search_None)
    have pn: "page_num name = Inr 0" using None by (simp add: page_num_def)
    have nex: "\<not> (\<exists>pre t ds r. name = pre @ t @ r \<and> leftmost pre (t @ r) \<and>
        page_token t ds \<and> no_digit_next r)"
    proof
      assume "\<exists>pre t ds r. name = pre @ t @ r \<and> leftmost pre (t @ r) \<and> page_token t ds \<and>
          no_digit_next r"
      then obtain pre t ds r where d: "name = pre @ t @ r" "leftmost pre (t @ r)"
        "page_token t ds" "no_digit_next r" by blast
      from PAGE_RE_search_found [OF d(2,3,4)] d(1) None show False by simp
    qed
    then have "(\<exists>pre t ds r. name = pre @ t @ r \<and> leftmost pre (t @ r) \<and> page_token t ds \<and>
          no_digit_next r \<and> res = py_int ds) = False"
      by blast
    then show ?thesis unfolding pn using no by auto
  next
    case (Some m)
    obtain ds r where m: "m = (ds, r)" by (cases m)
    with Some have s: "PAGE_RE_search name = Some (ds, r)" by simp
    then have "\<not> (\<forall>i \<le> length name. \<not> token_at (drop i name))"
      using PAGE_RE_search_None [of name] by simp
    moreover have "(\<exists>pre t ds' r'. name = pre @ t @ r' \<and> leftmost pre (t @ r') \<and>
         page_token t ds' \<and> no_digit_next r' \<and> res = py_int ds') \<longleftrightarrow> res = py_int ds"
    proof
      assume "\<exists>pre t ds' r'. name = pre @ t @ r' \<and> leftmost pre (t @ r') \<and>
         page_token t ds' \<and> no_digit_next r' \<and> res = py_int ds'"
      then obtain pre t ds' r' where d: "name = pre @ t @ r'" "leftmost pre (t @ r')"
        "page_token t ds'" "no_digit_next r'" "res = py_int ds'" by blast
      from PAGE_RE_search_found [OF d(2,3,4)] d(1) s have "ds' = ds" by simp
      with d(5) show "res = py_int ds" by simp
    next
      assume "res = py_int ds"
      with PAGE_RE_search_Some [OF s] show "\<exists>pre t ds' r'. name = pre @ t @ r' \<and>
         leftmost pre (t @ r') \<and> page_token t ds' \<and> no_digit_next r' \<and> res = py_int ds'"
        by blast
    qed
    ultimately show ?thesis using s by (auto simp: page_num_def)
  qed
  have "\<forall>ds. length ds \<le> 4300 \<longrightarrow> py_int ds = Inr (digits_value ds)"
    by (simp add: py_int_def)
  moreover have "\<forall>ds. 4300 < length ds \<longrightarrow> (\<exists>msg. py_int ds = Inl (ValueError msg))"
    by (simp add: py_int_def)
  ultimately show ?thesis using main by blast
qed

text \<open>A name with \<open>Page No. 12\<close> has page number 12.\<close>

theorem page_num_pattern_witness:
  "leftmost ''scan '' (''Page No. 12'' @ ''a'') \<and> page_token ''Page No. 12'' ''12'' \<and>
   no_digit_next ''a'' \<and> py_int ''12'' = Inr 12 \<and> page_num ''scan Page No. 12a'' = Inr 12"
proof -
  have t: "page_token (''Page'' @ '' '' @ ''No'' @ ''.'' @ '' '' @ ''12'') ''12''"
    by (rule page_token_intro) (simp_all add: eval_defs)
  have l: "leftmost ''scan '' (''Page No. 12'' @ ''a'')"
    by (simp add: leftmost_Cons PAGE_RE_match_None [symmetric] eval_defs)
  have n: "no_digit_next ''a''" by (simp add: no_digit_next_def eval_defs)
  have i: "py_int ''12'' = Inr 12" by (simp add: eval_defs)
  have "\<exists>pre t ds r. ''scan Page No. 12a'' = pre @ t @ r \<and> leftmost pre (t @ r) \<and>
      page_token t ds \<and> no_digit_next r \<and> Inr 12 = py_int ds"
    apply (rule exI [of _ "''scan ''"])
    apply (rule exI [of _ "''Page No. 12''"])
    apply (rule exI [of _ "''12''"])
    apply (rule exI [of _ "''a''"])
    using t l n i by simp
  then have "page_num ''scan Page No. 12a'' = Inr 12"
    using page_num_pattern [of "''scan Page No. 12a''" "Inr 12"] by blast
  with t l n i show ?thesis by simp
qed

text \<open>
  \<open>Page 2\<close> is a token as claim C2 words the pattern, with digits of value 2, but the
  pattern of the code asks for \<open>no\<close> before the digits: the page number of
  \<open>Dainik Bhaskar Page 2\<close> is 0.
\<close>

theorem page_num_Page_2_counterexample:
  "claimed_token ''Page 2'' ''2'' \<and> py_int ''2'' = Inr 2 \<and>
   page_num (lower ''Dainik Bhaskar Page 2'') = Inr 0 \<and>
   build_sort_key_with_map DEFAULT_PRIORITY None (0, ''Dainik Bhaskar Page 2.jpg'')
     = Inr (0, ''dainik bhaskar page 2'', 0, 0)"
proof -
  have "claimed_token (''Page'' @ '' '' @ [] @ [] @ ''2'') ''2''"
    by (rule claimed_token_intro) (simp_all add: eval_defs)
  then show ?thesis by (simp add: eval_defs)
qed

text \<open>
  Claim C7, as the code has it. In a name with two page-number tokens the page number is
  the number of the first one, and both tokens are removed from the base name: the
  removal goes on after each match.
\<close>

theorem first_match_number_all_removed:
  assumes "leftmost pre (t1 @ mid @ t2 @ r)" "page_token t1 ds1" "no_digit_next (mid @ t2 @ r)"
    and "leftmost mid (t2 @ r)" "page_token t2 ds2" "no_digit_next r"
  shows "page_num (pre @ t1 @ mid @ t2 @ r) = py_int ds1 \<and>
         PAGE_RE_sub (pre @ t1 @ mid @ t2 @ r) = pre @ mid @ PAGE_RE_sub r \<and>
         base_name (pre @ t1 @ mid @ t2 @ r) = strip_chars ''- _'' (pre @ mid @ PAGE_RE_sub r)"
proof -
  have "PAGE_RE_search (pre @ t1 @ mid @ t2 @ r) = Some (ds1, mid @ t2 @ r)"
    using assms(1-3) by (rule PAGE_RE_search_found)
  then have n: "page_num (pre @ t1 @ mid @ t2 @ r) = py_int ds1"
    by (simp add: page_num_def)
  have "PAGE_RE_sub (pre @ t1 @ mid @ t2 @ r) = pre @ PAGE_RE_sub (mid @ t2 @ r)"
    using assms(1-3) by (rule PAGE_RE_sub_step)
  also have "PAGE_RE_sub (mid @ t2 @ r) = mid @ PAGE_RE_sub r"
    using assms(4-6) by (rule PAGE_RE_sub_step)
  finally have s: "PAGE_RE_sub (pre @ t1 @ mid @ t2 @ r) = pre @ mid @ PAGE_RE_sub r" .
  with n show ?thesis by (simp add: base_name_def)
qed

text \<open>A name with two tokens: page number 1, and neither token in the base name.\<close>

theorem first_match_number_all_removed_witness:
  "leftmost ''a '' (''page no 1'' @ '' b '' @ ''page no 2'' @ ''.'') \<and>
   page_token ''page no 1'' ''1'' \<and> no_digit_next ('' b '' @ ''page no 2'' @ ''.'') \<and>
   leftmost '' b '' (''page no 2'' @ ''.'') \<and> page_token ''page no 2'' ''2'' \<and>
   no_digit_next ''.'' \<and>
   page_num ''a page no 1 b page no 2.'' = Inr 1 \<and>
   base_name ''a page no 1 b page no 2.'' = ''a  b .''"
proof -
  have t1: "page_token (''page'' @ '' '' @ ''no'' @ [] @ '' '' @ ''1'') ''1''"
    by (rule page_token_intro) (simp_all add: eval_defs)
  have t2: "page_token (''page'' @ '' '' @ ''no'' @ [] @ '' '' @ ''2'') ''2''"
    by (rule page_token_intro) (simp_all add: eval_defs)
  have l1: "leftmost ''a '' (''page no 1'' @ '' b '' @ ''page no 2'' @ ''.'')"
    by (simp add: leftmost_Cons PAGE_RE_match_None [symmetric] eval_defs)
  have l2: "leftmost '' b '' (''page no 2'' @ ''.'')"
    by (simp add: leftmost_Cons PAGE_RE_match_None [symmetric] eval_defs)
  have n1: "no_digit_next ('' b '' @ ''page no 2'' @ ''.'')" "no_digit_next ''.''"
    by (simp_all add: no_digit_next_def eval_defs)
  from first_match_number_all_removed [OF l1 _ n1(1) l2 _ n1(2), of "''1''" "''2''"] t1 t2
  have "page_num ''a page no 1 b page no 2.'' = Inr 1 \<and>
        base_name ''a page no 1 b page no 2.'' = ''a  b .''"
    by (simp add: eval_defs)
  with t1 t2 l1 l2 n1 show ?thesis by simp
qed

text \<open>
  The page number is that of the first token, but the second token is not in the base
  name; removing the first match only would leave it there.
\<close>

theorem later_token_removed_counterexample:
  "page_num ''a page no 1 b page no 2'' = Inr 1 \<and>
   strip_chars ''- _'' (PAGE_RE_sub_first ''a page no 1 b page no 2'') = ''a  b page no 2'' \<and>
   base_name ''a page no 1 b page no 2'' = ''a  b'' \<and>
   \<not> sublist ''page no 2'' (base_name ''a page no 1 b page no 2'')"
  by (simp add: eval_defs)

section \<open>The renderer\<close>

text \<open>
  Claim C4. Scaling never increases a side of an image (with sides below \<open>2 ^ 53\<close>, as
  every image of the library has): with both bounds unset the image is returned as it
  is; otherwise the scale factor is at most 1 and is the minimum of the ratios of the
  bounds that are set and exceeded, both sides are the truncated products with this one
  factor when it is below 1, and the image is unchanged when it is not. An image of 1600
  by 1000 with maximal width 800 and no maximal height becomes 800 by 500.
\<close>

theorem scale_image_never_upscales:
  assumes "0 \<le> width im" "width im < 2 ^ 53" "0 \<le> height im" "height im < 2 ^ 53"
  shows "scale_image im None None = Inr im \<and>
         (\<forall>im'. scale_image im max_w max_h = Inr im' \<longrightarrow>
            width im' \<le> width im \<and> height im' \<le> height im \<and>
            Min (set (1 # exceeded_ratios im max_w max_h)) \<le> 1 \<and>
            (exceeded_ratios im max_w max_h \<noteq> [] \<longrightarrow>
               Min (set (1 # exceeded_ratios im max_w max_h))
                 = Min (set (exceeded_ratios im max_w max_h))) \<and>
            (if Min (set (1 # exceeded_ratios im max_w max_h)) < 1
             then width im' = py_trunc (fl (of_int (width im) *
                                  Min (set (1 # exceeded_ratios im max_w max_h)))) \<and>
                  height im' = py_trunc (fl (of_int (height im) *
                                  Min (set (1 # exceeded_ratios im max_w max_h))))
             else im' = im)) \<and>
         scale_image \<lparr>width = 1600, height = 1000, source = s, label = l\<rparr> (Some 800) None
           = Inr \<lparr>width = 800, height = 500, source = s, label = l\<rparr>"
proof -
  have 1: "scale_image im None None = Inr im" by (simp add: scale_image_def)
  have 2: "width im' \<le> width im \<and> height im' \<le> height im \<and>
            Min (set (1 # exceeded_ratios im max_w max_h)) \<le> 1 \<and>
            (exceeded_ratios im max_w max_h \<noteq> [] \<longrightarrow>
               Min (set (1 # exceeded_ratios im max_w max_h))
                 = Min (set (exceeded_ratios im max_w max_h))) \<and>
            (if Min (set (1 # exceeded_ratios im max_w max_h)) < 1
             then width im' = py_trunc (fl (of_int (width im) *
                                  Min (set (1 # exceeded_ratios im max_w max_h)))) \<and>
                  height im' = py_trunc (fl (of_int (height im) *
                                  Min (set (1 # exceeded_ratios im max_w max_h))))
             else im' = im)"
    if r: "scale_image im max_w max_h = Inr im'" for im'
    using scale_image_Inr [OF assms r] by presburger
  from 1 2 scale_image_example show ?thesis by blast
qed

text \<open>The example of the claim, within the bounds on the sides.\<close>

theorem scale_image_never_upscales_witness:
  "(0::int) \<le> 1600 \<and> (1600::int) < 2 ^ 53 \<and> (0::int) \<le> 1000 \<and> (1000::int) < 2 ^ 53 \<and>
   scale_image \<lparr>width = 1600, height = 1000, source = ''a.jpg'', label = None\<rparr> (Some 800) None
     = Inr \<lparr>width = 800, height = 500, source = ''a.jpg'', label = None\<rparr> \<and>
   (800::int) \<le> 1600 \<and> (500::int) \<le> 1000"
  using scale_image_never_upscales
    [of "\<lparr>width = 1600, height = 1000, source = ''a.jpg'', label = None\<rparr>" "Some 800" None
        "''a.jpg''" None]
  by simp

text \<open>
  Claim C5. \<open>generate_pdf\<close> raises an error exactly when no page was processed, and this
  error is \<open>ValueError('No images processed')\<close>, the only one it raises; otherwise it
  saves all processed pages, in ranked order. A page that does not decode is skipped with
  a warning, and every page that can be processed is among the pages saved.
\<close>




text \<open>
  Claim C8. With labels not suppressed, every saved page carries as label the override of
  the form when it is given and not empty, and the display name of the page otherwise; an
  empty override is never the label.
\<close>

theorem label_text:
  assumes "generate_pdf lib image_paths priority (form_all_label form) font_size max_w max_h
             False filename_map = (warnings, Inr (doc, n))"
  shows "\<forall>im \<in> set doc.
           source im \<in> set image_paths \<and>
           label im = Some (case form ''all_label'' of
                              None \<Rightarrow> display_name filename_map (source im)
                            | Some v \<Rightarrow> if v \<noteq> [] then v
                                        else display_name filename_map (source im))"
proof
  fix im
  assume im: "im \<in> set doc"
  let ?f = "process_page lib (form_all_label form) font_size max_w max_h False filename_map"
  from assms obtain ps where
    ps: "ordered priority filename_map image_paths = Inr ps" and
    doc: "doc = successes ?f ps"
    by (auto simp: generate_pdf_eq Let_def split: sum.splits list.splits)
  from ordered_Inr [OF ps] have "ps = ordered_value priority filename_map image_paths"
    by simp
  then have set: "set ps = set image_paths" by (simp only: set_ordered_value)
  from im doc obtain p where p: "p \<in> set ps" "?f p = Inr im"
    by (auto simp: set_successes)
  from process_page_label [OF p(2)] have
    "source im = p" "label im = Some (page_label (form_all_label form) filename_map p)"
    by simp_all
  moreover have "p \<in> set image_paths" using p(1) by (simp add: set)
  ultimately show "source im \<in> set image_paths \<and>
           label im = Some (case form ''all_label'' of
                              None \<Rightarrow> display_name filename_map (source im)
                            | Some v \<Rightarrow> if v \<noteq> [] then v
                                        else display_name filename_map (source im))"
    by (simp add: page_label_eq form_all_label_def split: option.splits)
qed

text \<open>An empty override: the page is labelled with its own name.\<close>

theorem label_text_witness:
  "generate_pdf sample_pil [''/tmp/u/a_b.jpg''] DEFAULT_PRIORITY
     (form_all_label [''all_label'' \<mapsto> []]) 28 None None False
     (Some [''/tmp/u/a_b.jpg'' \<mapsto> ''a b''])
   = ([], Inr ([\<lparr>width = 640, height = 528, source = ''/tmp/u/a_b.jpg'',
                 label = Some ''a b''\<rparr>], 1)) \<and>
   label \<lparr>width = 640, height = 528, source = ''/tmp/u/a_b.jpg'', label = Some ''a b''\<rparr>
     = Some (display_name (Some [''/tmp/u/a_b.jpg'' \<mapsto> ''a b'']) ''/tmp/u/a_b.jpg'')"
proof -
  have run: "generate_pdf sample_pil [''/tmp/u/a_b.jpg''] DEFAULT_PRIORITY
     (form_all_label [''all_label'' \<mapsto> []]) 28 None None False
     (Some [''/tmp/u/a_b.jpg'' \<mapsto> ''a b''])
   = ([], Inr ([\<lparr>width = 640, height = 528, source = ''/tmp/u/a_b.jpg'',
                 label = Some ''a b''\<rparr>], 1))"
    by (simp add: render_defs eval_defs)
  from label_text [OF run] run show ?thesis by simp
qed

text \<open>
  Claim C10. With an empty list of pages \<open>generate_pdf\<close> raises
  \<open>ValueError('No images processed')\<close> and saves nothing, which is what it does when the
  ranking returns and no page decodes.
\<close>

theorem generate_pdf_empty:
  "generate_pdf lib [] priority all_label font_size max_w max_h no_label filename_map
     = ([], Inl (ValueError ''No images processed'')) \<and>
   ((\<forall>p \<in> set image_paths. \<exists>e. open_rgb lib p = Inl e) \<and>
    (\<exists>ps. ordered priority filename_map image_paths = Inr ps) \<longrightarrow>
      snd (generate_pdf lib image_paths priority all_label font_size max_w max_h no_label
             filename_map)
      = snd (generate_pdf lib [] priority all_label font_size max_w max_h no_label
               filename_map))"
proof -
  have e: "generate_pdf lib [] priority all_label font_size max_w max_h no_label filename_map
     = ([], Inl (ValueError ''No images processed''))"
    by (simp add: generate_pdf_def ordered_def indexed_sorted_def list_sort_key_def)
  have "snd (generate_pdf lib image_paths priority all_label font_size max_w max_h no_label
             filename_map) = Inl (ValueError ''No images processed'')"
    if a: "\<forall>p \<in> set image_paths. \<exists>e. open_rgb lib p = Inl e"
      and r: "ordered priority filename_map image_paths = Inr ps" for ps
  proof -
    let ?f = "process_page lib all_label font_size max_w max_h no_label filename_map"
    from ordered_Inr [OF r] have "ps = ordered_value priority filename_map image_paths"
      by simp
    then have "set ps = set image_paths" by (simp only: set_ordered_value)
    then have "\<forall>p \<in> set ps. \<exists>e. ?f p = Inl e"
      using a process_page_open_fails by fastforce
    then have "successes ?f ps = []"
      by (simp add: successes_Nil)
    then show ?thesis by (simp add: generate_pdf_eq r Let_def)
  qed
  with e show ?thesis by auto
qed

text \<open>A batch of one file that does not decode fails as the empty batch does.\<close>

theorem generate_pdf_empty_witness:
  "open_rgb sample_pil ''bad.jpg'' = Inl (OSError ''cannot identify image file'') \<and>
   ordered DEFAULT_PRIORITY None [''bad.jpg''] = Inr [''bad.jpg''] \<and>
   snd (generate_pdf sample_pil [''bad.jpg''] DEFAULT_PRIORITY None 28 None None False None)
     = snd (generate_pdf sample_pil [] DEFAULT_PRIORITY None 28 None None False None)"
proof -
  have bad: "open_rgb sample_pil ''bad.jpg'' = Inl (OSError ''cannot identify image file'')"
    by (simp add: sample_pil_def path_name_def)
  then have a: "\<forall>p \<in> set [''bad.jpg'']. \<exists>e. open_rgb sample_pil p = Inl e" by simp
  have ord: "ordered DEFAULT_PRIORITY None [''bad.jpg''] = Inr [''bad.jpg'']"
    by (simp add: eval_defs)
  then have "\<exists>ps. ordered DEFAULT_PRIORITY None [''bad.jpg''] = Inr ps" by blast
  with a generate_pdf_empty
    [of sample_pil DEFAULT_PRIORITY None 28 None None False None "[''bad.jpg'']"]
  have "snd (generate_pdf sample_pil [''bad.jpg''] DEFAULT_PRIORITY None 28 None None False None)
     = snd (generate_pdf sample_pil [] DEFAULT_PRIORITY None 28 None None False None)"
    by blast
  with bad ord show ?thesis by blast
qed

end
